theory Spec2Isabelle
  imports Complex_Main "HOL-Library.Word"
begin

unbundle bit_operations_syntax

section \<open>JavaScript values used by the codec\<close>

text \<open>
  A Node \<open>Buffer\<close> is a list of bytes. The operands of the bitwise operators of
  JavaScript are 32-bit integers: \<open>ToInt32\<close> of an integer-valued number is
  \<open>word_of_int\<close>, the signed result is read back with \<open>sint\<close>, the result of
  \<open>>>>\<close> with \<open>uint\<close>. Integer-valued numbers are \<open>int\<close>.
\<close>

type_synonym u8 = "8 word"
type_synonym i32 = "32 word"
type_synonym buffer = "u8 list"

datatype error =
    VarintOverflow nat
  | ColorOverflow nat
  | RGBOverflow nat
  | UnknownColorEncoding nat nat
  | ViewBoxOverflow nat
  | UnknownViewBoxFormat nat
  | PathDataOverflow nat nat
  | TooShort

section \<open>compress.js: variable-length integers\<close>

text \<open>
  \<^verbatim>\<open>while (num >= 128) { bytes.push((num & 0x7F) | 0x80); num >>>= 7; } bytes.push(num);\<close>
  \<open>Buffer.from\<close> stores each pushed number modulo 256.
\<close>

function encodeVarInt_loop :: "int \<Rightarrow> u8 list \<Rightarrow> u8 list" where
  "encodeVarInt_loop num bytes =
     (if num \<ge> 128
      then encodeVarInt_loop (uint (drop_bit 7 (word_of_int num :: i32)))
             (bytes @ [ucast (((word_of_int num :: i32) AND 0x7F) OR 0x80)])
      else bytes @ [word_of_int num])"
  by pat_completeness auto
termination
proof (relation "measure (\<lambda>(num, bytes). nat num)")
  show "wf (measure (\<lambda>(num, bytes). nat num))" by simp
next
  fix num :: int and bytes :: "u8 list"
  assume big: "128 \<le> num"
  have "uint (drop_bit 7 (word_of_int num :: i32)) = (num mod 2 ^ 32) div 2 ^ 7"
    by (simp add: drop_bit_eq_div uint_div_distrib uint_word_of_int_eq take_bit_eq_mod)
  also have "\<dots> \<le> num div 2 ^ 7"
    using big by (intro zdiv_mono1) (auto intro: zmod_le_nonneg_dividend)
  also have "\<dots> < num" using big by simp
  finally have "nat (uint (drop_bit 7 (word_of_int num :: i32))) < nat num"
    using big by linarith
  then show "((uint (drop_bit 7 (word_of_int num :: i32)),
                  bytes @ [ucast (((word_of_int num :: i32) AND 0x7F) OR 0x80)]), (num, bytes))
                \<in> measure (\<lambda>(num, bytes). nat num)"
    by (simp del: nat_uint_eq add: nat_uint_eq [symmetric])
qed

definition encodeVarInt :: "int \<Rightarrow> buffer" where
  "encodeVarInt num = (if num = 0 then [0] else encodeVarInt_loop num [])"

text \<open>\<^verbatim>\<open>const zigzag = (num << 1) ^ (num >> 31); return encodeVarInt(zigzag);\<close>\<close>

definition zigzag :: "int \<Rightarrow> int" where
  "zigzag num = sint (push_bit 1 (word_of_int num :: i32) XOR signed_drop_bit 31 (word_of_int num :: i32))"

definition encodeSignedVarInt :: "int \<Rightarrow> buffer" where
  "encodeSignedVarInt num = encodeVarInt (zigzag num)"

section \<open>decompress.js: variable-length integers\<close>

text \<open>
  The \<open>do ... while (currentByte & 0x80)\<close> loop. The shift count of \<open><<\<close> is taken
  modulo 32, and \<open>|=\<close> leaves a signed 32-bit result.
\<close>

function decodeVarInt_loop :: "buffer \<Rightarrow> nat \<Rightarrow> i32 \<Rightarrow> nat \<Rightarrow> nat \<Rightarrow> error + (int \<times> nat)" where
  "decodeVarInt_loop buffer offset result shift bytesRead =
     (if offset + bytesRead \<ge> length buffer then Inl (VarintOverflow offset)
      else if (buffer ! (offset + bytesRead)) AND 0x80 \<noteq> 0
      then decodeVarInt_loop buffer offset
             (result OR push_bit (shift mod 32) (ucast ((buffer ! (offset + bytesRead)) AND 0x7F)))
             (shift + 7) (bytesRead + 1)
      else Inr (sint (result OR push_bit (shift mod 32) (ucast ((buffer ! (offset + bytesRead)) AND 0x7F))),
                bytesRead + 1))"
  by pat_completeness auto
termination
  by (relation "measure (\<lambda>(buffer, offset, result, shift, bytesRead). length buffer - (offset + bytesRead))") auto

declare encodeVarInt_loop.simps [simp del] decodeVarInt_loop.simps [simp del]

definition decodeVarInt :: "buffer \<Rightarrow> nat \<Rightarrow> error + (int \<times> nat)" where
  "decodeVarInt buffer offset = decodeVarInt_loop buffer offset 0 0 0"

text \<open>\<^verbatim>\<open>const decoded = (value >>> 1) ^ (-(value & 1));\<close>\<close>

definition unzigzag :: "int \<Rightarrow> int" where
  "unzigzag v = sint (drop_bit 1 (word_of_int v :: i32) XOR - ((word_of_int v :: i32) AND 1))"

definition decodeSignedVarInt :: "buffer \<Rightarrow> nat \<Rightarrow> error + (int \<times> nat)" where
  "decodeSignedVarInt buffer offset =
     (case decodeVarInt buffer offset of
        Inl e \<Rightarrow> Inl e
      | Inr (v, bytesRead) \<Rightarrow> Inr (unzigzag v, bytesRead))"

section \<open>Strings\<close>

text \<open>
  A JavaScript string is modelled as a list of 8-bit characters, one per code unit
  below 256. \<open>toUpperCase\<close> maps \<open>a\<close>..\<open>z\<close> to \<open>A\<close>..\<open>Z\<close> and leaves every other
  character alone; the strings compared with its result below consist of hexadecimal
  digits only, and no character outside \<open>a\<close>..\<open>f\<close> has such a digit as its upper case.
\<close>

definition code :: "char \<Rightarrow> nat" where
  "code c = of_char c"

definition isLower :: "char \<Rightarrow> bool" where
  "isLower c \<longleftrightarrow> 97 \<le> code c \<and> code c \<le> 122"

definition isUpper :: "char \<Rightarrow> bool" where
  "isUpper c \<longleftrightarrow> 65 \<le> code c \<and> code c \<le> 90"

definition isDigit :: "char \<Rightarrow> bool" where
  "isDigit c \<longleftrightarrow> 48 \<le> code c \<and> code c \<le> 57"

definition isLetter :: "char \<Rightarrow> bool" where
  "isLetter c \<longleftrightarrow> isLower c \<or> isUpper c"

text \<open>The class \<open>\s\<close> of a regular expression, and the white space \<open>parseInt\<close> skips.\<close>

definition isWhiteSpace :: "char \<Rightarrow> bool" where
  "isWhiteSpace c \<longleftrightarrow> code c \<in> {9, 10, 11, 12, 13, 32, 160}"

definition toUpperChar :: "char \<Rightarrow> char" where
  "toUpperChar c = (if isLower c then char_of (code c - 32) else c)"

definition toLowerChar :: "char \<Rightarrow> char" where
  "toLowerChar c = (if isUpper c then char_of (code c + 32) else c)"

definition toUpperCase :: "string \<Rightarrow> string" where
  "toUpperCase s = map toUpperChar s"

definition toLowerCase :: "string \<Rightarrow> string" where
  "toLowerCase s = map toLowerChar s"

definition startsWith :: "string \<Rightarrow> string \<Rightarrow> bool" where
  "startsWith s p \<longleftrightarrow> take (length p) s = p"

definition padStart :: "nat \<Rightarrow> char \<Rightarrow> string \<Rightarrow> string" where
  "padStart n c s = replicate (n - length s) c @ s"

text \<open>\<open>s.substring(i, j)\<close> for \<open>i \<le> j\<close>.\<close>

definition substring :: "string \<Rightarrow> nat \<Rightarrow> nat \<Rightarrow> string" where
  "substring s i j = take (j - i) (drop i s)"

subsection \<open>Numbers to and from text\<close>

definition hexDigit :: "nat \<Rightarrow> char" where
  "hexDigit d = (if d < 10 then char_of (48 + d) else char_of (87 + d))"

text \<open>\<open>n.toString(16)\<close>: lower-case digits, a minus sign for a negative number.\<close>

function toString16_nat :: "nat \<Rightarrow> string" where
  "toString16_nat n = (if n < 16 then [hexDigit n] else toString16_nat (n div 16) @ [hexDigit (n mod 16)])"
  by pat_completeness auto
termination
  by (relation "measure (\<lambda>n. n)") auto

declare toString16_nat.simps [simp del]

definition toString16 :: "int \<Rightarrow> string" where
  "toString16 v = (if v < 0 then CHR ''-'' # toString16_nat (nat (- v)) else toString16_nat (nat v))"

definition hexval :: "char \<Rightarrow> nat option" where
  "hexval c =
     (if isDigit c then Some (code c - 48)
      else if 97 \<le> code c \<and> code c \<le> 102 then Some (code c - 87)
      else if 65 \<le> code c \<and> code c \<le> 70 then Some (code c - 55)
      else None)"

fun hexDigits_value :: "nat \<Rightarrow> string \<Rightarrow> nat" where
  "hexDigits_value acc [] = acc"
| "hexDigits_value acc (c # cs) =
     (case hexval c of None \<Rightarrow> acc | Some d \<Rightarrow> hexDigits_value (16 * acc + d) cs)"

text \<open>
  \<open>parseInt(s, 16)\<close>: leading white space, a sign, an optional \<open>0x\<close> prefix, then the
  longest run of hexadecimal digits; \<open>None\<close> is \<open>NaN\<close>.
\<close>

definition parseInt16 :: "string \<Rightarrow> int option" where
  "parseInt16 s =
     (let s1 = dropWhile isWhiteSpace s;
          neg = startsWith s1 ''-'';
          s2 = (if startsWith s1 ''-'' \<or> startsWith s1 ''+'' then drop 1 s1 else s1);
          s3 = (if startsWith s2 ''0x'' \<or> startsWith s2 ''0X'' then drop 2 s2 else s2)
      in case s3 of
           [] \<Rightarrow> None
         | c # cs \<Rightarrow>
             (case hexval c of
                None \<Rightarrow> None
              | Some d \<Rightarrow> Some ((if neg then - 1 else 1) * int (hexDigits_value 0 s3))))"

text \<open>\<open>Number(s)\<close> for a string of decimal digits, as captured by \<open>(\d+)\<close>.\<close>

fun decimal_value :: "nat \<Rightarrow> string \<Rightarrow> nat" where
  "decimal_value acc [] = acc"
| "decimal_value acc (c # cs) = decimal_value (10 * acc + (code c - 48)) cs"

text \<open>\<open>Buffer.from([...])\<close> stores a number modulo 256 and \<open>NaN\<close> as 0.\<close>

definition toByte :: "int option \<Rightarrow> u8" where
  "toByte v = (case v of None \<Rightarrow> 0 | Some n \<Rightarrow> word_of_int n)"

section \<open>compress.js: colors\<close>

text \<open>
  The properties that \<open>COLOR_DICT\<close> inherits from \<open>Object.prototype\<close> all have a
  lower-case letter in their names, and every key looked up below is in upper case, so
  a lookup finds the listed entries only.
\<close>

definition COLOR_DICT :: "(string \<times> nat) list" where
  "COLOR_DICT =
     [(''000000'', 1), (''FFFFFF'', 2), (''808080'', 3), (''FF0000'', 4), (''00FF00'', 5),
      (''0000FF'', 6), (''FFFF00'', 7), (''00FFFF'', 8), (''FF00FF'', 9), (''C0C0C0'', 10),
      (''FFA500'', 11), (''800000'', 12), (''008000'', 13), (''000080'', 14), (''800080'', 15),
      (''999999'', 16), (''333333'', 17), (''CCCCCC'', 18), (''none'', 0)]"

text \<open>\<open>COLOR_DICT[key]\<close> as a condition: the entry exists and is not 0.\<close>

definition dictTruthy :: "string \<Rightarrow> bool" where
  "dictTruthy key = (case map_of COLOR_DICT key of None \<Rightarrow> False | Some v \<Rightarrow> v \<noteq> 0)"

text \<open>
  The match of \<^verbatim>\<open>/rgb\(\s*(\d+)\s*,\s*(\d+)\s*,\s*(\d+)\s*\)/\<close> that starts at the
  head of the string. White space, digits, the comma and the parenthesis are disjoint
  classes, so the greedy match is the only one.
\<close>

definition skipSpaces :: "string \<Rightarrow> string" where
  "skipSpaces s = dropWhile isWhiteSpace s"

definition digitsThen :: "char \<Rightarrow> string \<Rightarrow> (string \<times> string) option" where
  "digitsThen sep s =
     (let s1 = skipSpaces s; ds = takeWhile isDigit s1; s2 = skipSpaces (dropWhile isDigit s1)
      in if ds = [] then None
         else (case s2 of [] \<Rightarrow> None | c # rest \<Rightarrow> if c = sep then Some (ds, rest) else None))"

definition rgbMatchAt :: "string \<Rightarrow> (string \<times> string \<times> string) option" where
  "rgbMatchAt s =
     (if startsWith s ''rgb(''
      then (case digitsThen CHR '','' (drop 4 s) of
              None \<Rightarrow> None
            | Some (r, s1) \<Rightarrow>
                (case digitsThen CHR '','' s1 of
                   None \<Rightarrow> None
                 | Some (g, s2) \<Rightarrow>
                     (case digitsThen CHR '')'' s2 of
                        None \<Rightarrow> None
                      | Some (b, s3) \<Rightarrow> Some (r, g, b))))
      else None)"

text \<open>\<open>color.match(...)\<close>: the leftmost position where the expression matches.\<close>

fun rgbMatch :: "string \<Rightarrow> (string \<times> string \<times> string) option" where
  "rgbMatch [] = None"
| "rgbMatch (c # cs) =
     (case rgbMatchAt (c # cs) of Some m \<Rightarrow> Some m | None \<Rightarrow> rgbMatch cs)"

text \<open>
  \<^verbatim>\<open>((r << 16) | (g << 8) | b).toString(16).padStart(6, '0').toUpperCase()\<close>.
  \<open>Number\<close> of a digit string is taken exactly; a JavaScript number rounds one of more
  than 15 digits.
\<close>

definition rgbToHex :: "string \<Rightarrow> string \<Rightarrow> string \<Rightarrow> string" where
  "rgbToHex r g b =
     toUpperCase (padStart 6 CHR ''0'' (toString16 (sint
       (push_bit 16 (word_of_nat (decimal_value 0 r) :: i32) OR
        push_bit 8 (word_of_nat (decimal_value 0 g) :: i32) OR
        (word_of_nat (decimal_value 0 b) :: i32)))))"

definition colorHex :: "string \<Rightarrow> string" where
  "colorHex color =
     (if startsWith color ''#''
      then (let hex = toUpperCase (drop 1 color)
            in if length hex = 3 then concat (map (\<lambda>c. [c, c]) hex) else hex)
      else if startsWith color ''rgb''
      then (case rgbMatch color of
              Some (r, g, b) \<Rightarrow> rgbToHex r g b
            | None \<Rightarrow> ''000000'')
      else if dictTruthy (toUpperCase color) then toUpperCase color
      else ''000000'')"

definition rgbBytes :: "string \<Rightarrow> buffer" where
  "rgbBytes hex =
     [254,
      toByte (parseInt16 (substring hex 0 2)),
      toByte (parseInt16 (substring hex 2 4)),
      toByte (parseInt16 (substring hex 4 6))]"

definition encodeColor :: "string \<Rightarrow> buffer" where
  "encodeColor color =
     (if color = [] \<or> color = ''none'' then [0]
      else (let hex = colorHex color
            in case map_of COLOR_DICT hex of
                 None \<Rightarrow> rgbBytes hex
               | Some v \<Rightarrow> if v \<noteq> 0 then [of_nat v] else rgbBytes hex))"

section \<open>decompress.js: colors\<close>

definition COLOR_DICT_dec :: "(nat \<times> string) list" where
  "COLOR_DICT_dec =
     [(1, ''000000''), (2, ''FFFFFF''), (3, ''808080''), (4, ''FF0000''), (5, ''00FF00''),
      (6, ''0000FF''), (7, ''FFFF00''), (8, ''00FFFF''), (9, ''FF00FF''), (10, ''C0C0C0''),
      (11, ''FFA500''), (12, ''800000''), (13, ''008000''), (14, ''000080''), (15, ''800080''),
      (16, ''999999''), (17, ''333333''), (18, ''CCCCCC''), (0, ''none'')]"

definition byteHex :: "u8 \<Rightarrow> string" where
  "byteHex x = padStart 2 CHR ''0'' (toString16 (uint x))"

definition decodeColor :: "buffer \<Rightarrow> nat \<Rightarrow> error + (string \<times> nat)" where
  "decodeColor buffer offset =
     (if offset \<ge> length buffer then Inl (ColorOverflow offset)
      else (let colorCode = unat (buffer ! offset)
            in case (if colorCode < 254 then map_of COLOR_DICT_dec colorCode else None) of
                 Some name \<Rightarrow> Inr (if colorCode = 0 then ''none'' else CHR ''#'' # name, 1)
               | None \<Rightarrow>
                   if colorCode = 254
                   then (if offset + 3 \<ge> length buffer then Inl (RGBOverflow offset)
                         else Inr (toUpperCase (CHR ''#'' # byteHex (buffer ! (offset + 1)) @
                                     byteHex (buffer ! (offset + 2)) @ byteHex (buffer ! (offset + 3))), 4))
                   else Inl (UnknownColorEncoding colorCode offset)))"

text \<open>The six upper-case hexadecimal digits \<open>RRGGBB\<close> of an RGB triple of bytes.\<close>

definition hexForm :: "u8 \<Rightarrow> u8 \<Rightarrow> u8 \<Rightarrow> string" where
  "hexForm r g b = toUpperCase (byteHex r @ byteHex g @ byteHex b)"

section \<open>Numbers\<close>

text \<open>
  Coordinates are JavaScript numbers. They are modelled as exact rationals: the double
  nearest to a decimal literal is replaced by the value of the literal, and arithmetic
  is exact.
\<close>

definition QUANTIZATION_SCALE :: rat where
  "QUANTIZATION_SCALE = 15"

text \<open>\<open>Math.round\<close> rounds half-way cases up.\<close>

definition mathRound :: "rat \<Rightarrow> int" where
  "mathRound x = \<lfloor>x + 1 / 2\<rfloor>"

function showNat :: "nat \<Rightarrow> string" where
  "showNat n = (if n < 10 then [char_of (48 + n)] else showNat (n div 10) @ [char_of (48 + n mod 10)])"
  by pat_completeness auto
termination
  by (relation "measure (\<lambda>n. n)") auto

declare showNat.simps [simp del]

text \<open>The text of an integer, as a template literal prints it.\<close>

definition showInt :: "int \<Rightarrow> string" where
  "showInt v = (if v < 0 then CHR ''-'' # showNat (nat (- v)) else showNat (nat v))"

text \<open>
  \<open>x.toFixed(f)\<close> for \<open>|x| < 10^21\<close>: the sign, then the nearest multiple of \<open>10^-f\<close>, the
  larger one of two.
\<close>

definition toFixed :: "nat \<Rightarrow> rat \<Rightarrow> string" where
  "toFixed f x =
     (let ds = padStart (f + 1) CHR ''0'' (showNat (nat \<lfloor>\<bar>x\<bar> * 10 ^ f + 1 / 2\<rfloor>))
      in (if x < 0 then ''-'' else []) @ take (length ds - f) ds @
         (if f = 0 then [] else CHR ''.'' # drop (length ds - f) ds))"

text \<open>
  \<open>parseFloat\<close> on a string without letters (no exponent, no \<open>Infinity\<close>): white space,
  a sign, digits, a point, digits; \<open>None\<close> is \<open>NaN\<close>.
\<close>

definition parseFloat :: "string \<Rightarrow> rat option" where
  "parseFloat s =
     (let s1 = dropWhile isWhiteSpace s;
          neg = startsWith s1 ''-'';
          s2 = (if startsWith s1 ''-'' \<or> startsWith s1 ''+'' then drop 1 s1 else s1);
          ip = takeWhile isDigit s2;
          r = dropWhile isDigit s2;
          fp = (if startsWith r ''.'' then takeWhile isDigit (drop 1 r) else [])
      in if ip = [] \<and> fp = [] then None
         else Some ((if neg then - 1 else 1) *
                    (of_nat (decimal_value 0 ip) + of_nat (decimal_value 0 fp) / 10 ^ length fp)))"

section \<open>compress.js: path data\<close>

definition CMD_DICT :: "(string \<times> int) list" where
  "CMD_DICT =
     [(''M'', 1), (''m'', 2), (''L'', 3), (''l'', 4), (''H'', 5), (''h'', 6), (''V'', 7),
      (''v'', 8), (''C'', 9), (''c'', 10), (''S'', 11), (''s'', 12), (''Q'', 13), (''q'', 14),
      (''T'', 15), (''t'', 16), (''A'', 17), (''a'', 18), (''Z'', 19), (''z'', 19)]"

text \<open>\<^verbatim>\<open>.replace(/\s+/g, ' ')\<close>\<close>

function collapseSpaces :: "string \<Rightarrow> string" where
  "collapseSpaces [] = []"
| "collapseSpaces (c # cs) =
     (if isWhiteSpace c then CHR '' '' # collapseSpaces (dropWhile isWhiteSpace cs)
      else c # collapseSpaces cs)"
  by pat_completeness auto
termination
  by (relation "measure length") (auto simp add: length_dropWhile_le less_Suc_eq_le)

text \<open>\<^verbatim>\<open>.replace(/([a-zA-Z])/g, ' $1 ')\<close>\<close>

definition spaceCommands :: "string \<Rightarrow> string" where
  "spaceCommands s = concat (map (\<lambda>c. if isLetter c then [CHR '' '', c, CHR '' ''] else [c]) s)"

definition trim :: "string \<Rightarrow> string" where
  "trim s = rev (dropWhile isWhiteSpace (rev (dropWhile isWhiteSpace s)))"

text \<open>\<open>s.split(sep)\<close> for a one-character separator.\<close>

fun splitOn :: "char \<Rightarrow> string \<Rightarrow> string list" where
  "splitOn sep [] = [[]]"
| "splitOn sep (c # cs) =
     (if c = sep then [] # splitOn sep cs
      else (case splitOn sep cs of [] \<Rightarrow> [[c]] | w # ws \<Rightarrow> (c # w) # ws))"

definition tokenize :: "string \<Rightarrow> string list" where
  "tokenize pathData = splitOn CHR '' '' (trim (collapseSpaces (spaceCommands (collapseSpaces pathData))))"

record cstate =
  compressed :: "int list"
  currentX :: rat
  currentY :: rat
  lastCommand :: string

text \<open>\<^verbatim>\<open>/^[A-Za-z]$/.test(token)\<close>\<close>

definition isCommandToken :: "string \<Rightarrow> bool" where
  "isCommandToken token = (case token of [c] \<Rightarrow> isLetter c | _ \<Rightarrow> False)"

definition pushNumber :: "int \<Rightarrow> cstate \<Rightarrow> cstate" where
  "pushNumber encodedNum st = st\<lparr>compressed := compressed st @ [encodedNum]\<rparr>"

text \<open>One iteration of the loop over the tokens, \<open>i\<close> the index of the token.\<close>

definition compressToken :: "nat \<Rightarrow> string \<Rightarrow> cstate \<Rightarrow> cstate" where
  "compressToken i token st =
     (if isCommandToken token
      then (case map_of CMD_DICT token of
              Some c \<Rightarrow> st\<lparr>compressed := compressed st @ [c], lastCommand := token\<rparr>
            | None \<Rightarrow> st)
      else (case parseFloat token of
              None \<Rightarrow> st
            | Some num \<Rightarrow>
                (let lc = lastCommand st
                 in if lc = toLowerCase lc \<and> lc \<noteq> ''z'' \<and> lc \<noteq> ''Z''
                    then pushNumber (mathRound (num * QUANTIZATION_SCALE)) st
                    else if lc \<noteq> ''z'' \<and> lc \<noteq> ''Z''
                    then (if lc = ''H''
                          then pushNumber (mathRound ((num - currentX st) * QUANTIZATION_SCALE))
                                 (st\<lparr>currentX := num\<rparr>)
                          else if lc = ''V''
                          then pushNumber (mathRound ((num - currentY st) * QUANTIZATION_SCALE))
                                 (st\<lparr>currentY := num\<rparr>)
                          else if i mod 2 = 0
                          then pushNumber (mathRound ((num - currentX st) * QUANTIZATION_SCALE))
                                 (st\<lparr>currentX := num\<rparr>)
                          else pushNumber (mathRound ((num - currentY st) * QUANTIZATION_SCALE))
                                 (st\<lparr>currentY := num\<rparr>))
                    else pushNumber (mathRound (num * QUANTIZATION_SCALE)) st)))"

fun compressTokens :: "nat \<Rightarrow> string list \<Rightarrow> cstate \<Rightarrow> cstate" where
  "compressTokens i [] st = st"
| "compressTokens i (token # tokens) st = compressTokens (i + 1) tokens (compressToken i token st)"

text \<open>
  Every element of \<open>compressed\<close> is a number, the command codes of \<open>CMD_DICT\<close> included,
  so \<^verbatim>\<open>typeof value === 'number'\<close> holds for each of them and each is written by
  \<open>encodeSignedVarInt\<close>.
\<close>

definition compressPathData :: "string \<Rightarrow> buffer" where
  "compressPathData pathData =
     concat (map encodeSignedVarInt
       (compressed (compressTokens 0 (tokenize pathData)
          \<lparr>compressed = [], currentX = 0, currentY = 0, lastCommand = []\<rparr>)))"

section \<open>decompress.js: path data\<close>

definition CMD_DICT_dec :: "(nat \<times> string) list" where
  "CMD_DICT_dec =
     [(1, ''M''), (2, ''m''), (3, ''L''), (4, ''l''), (5, ''H''), (6, ''h''), (7, ''V''),
      (8, ''v''), (9, ''C''), (10, ''c''), (11, ''S''), (12, ''s''), (13, ''Q''), (14, ''q''),
      (15, ''T''), (16, ''t''), (17, ''A''), (18, ''a''), (19, ''Z'')]"

record dstate =
  pathData :: string
  posX :: rat
  posY :: rat
  currentCommand :: string
  isFirstCoordinate :: bool
  coordCount :: nat

text \<open>
  The body of the loop for a number: \<open>posX\<close> and \<open>posY\<close> are the decoder's
  \<open>currentX\<close> and \<open>currentY\<close>.
\<close>

definition decodeNumber :: "int \<Rightarrow> dstate \<Rightarrow> dstate" where
  "decodeNumber encodedNum st =
     (let decodedNum = of_int encodedNum / QUANTIZATION_SCALE;
          cmd = currentCommand st;
          isRelative = (cmd = toLowerCase cmd \<and> cmd \<noteq> ''z'' \<and> cmd \<noteq> ''Z'');
          st1 =
            (if isRelative
             then (let st0 = st\<lparr>pathData := pathData st @ toFixed 2 decodedNum @ '' ''\<rparr>
                   in if coordCount st mod 2 = 0
                      then st0\<lparr>posX := posX st + decodedNum\<rparr>
                      else st0\<lparr>posY := posY st + decodedNum\<rparr>)
             else if cmd = ''H''
             then st\<lparr>pathData := pathData st @ toFixed 2 (posX st + decodedNum) @ '' '',
                     posX := posX st + decodedNum\<rparr>
             else if cmd = ''V''
             then st\<lparr>pathData := pathData st @ toFixed 2 (posY st + decodedNum) @ '' '',
                     posY := posY st + decodedNum\<rparr>
             else if cmd \<noteq> ''Z'' \<and> cmd \<noteq> ''z''
             then (if coordCount st mod 2 = 0
                   then (let absX = (if isFirstCoordinate st then decodedNum else posX st + decodedNum)
                         in st\<lparr>pathData := pathData st @ toFixed 2 absX @ '' '', posX := absX\<rparr>)
                   else (let absY = (if isFirstCoordinate st then decodedNum else posY st + decodedNum)
                         in st\<lparr>pathData := pathData st @ toFixed 2 absY @ '' '', posY := absY\<rparr>))
             else st\<lparr>pathData := pathData st @ toFixed 2 decodedNum @ '' ''\<rparr>)
      in st1\<lparr>coordCount := coordCount st + 1,
              isFirstCoordinate := (if coordCount st + 1 = 2 then False else isFirstCoordinate st)\<rparr>)"

definition decodeCommand :: "string \<Rightarrow> dstate \<Rightarrow> dstate" where
  "decodeCommand cmd st =
     st\<lparr>currentCommand := cmd, pathData := pathData st @ cmd @ '' '',
        isFirstCoordinate := True, coordCount := 0\<rparr>"

lemma decodeVarInt_loop_bytesRead:
  "decodeVarInt_loop buffer offset result shift bytesRead = Inr (v, n) \<Longrightarrow> bytesRead < n"
proof (induction buffer offset result shift bytesRead rule: decodeVarInt_loop.induct)
  case (1 buffer offset result shift bytesRead)
  from "1.prems" show ?case
    by (subst (asm) decodeVarInt_loop.simps) (auto split: if_splits dest: "1.IH")
qed

lemma decodeSignedVarInt_bytesRead:
  "decodeSignedVarInt buffer offset = Inr (v, n) \<Longrightarrow> 0 < n"
  by (auto simp add: decodeSignedVarInt_def decodeVarInt_def split: sum.splits
      dest: decodeVarInt_loop_bytesRead)

text \<open>
  \<^verbatim>\<open>while (currentOffset < endOffset)\<close>. A byte from 1 to 19 is a command, any other
  byte starts a signed varint, which may run past \<open>endOffset\<close>.
\<close>

function decodePathData_loop :: "buffer \<Rightarrow> nat \<Rightarrow> nat \<Rightarrow> dstate \<Rightarrow> error + dstate" where
  "decodePathData_loop buffer endOffset currentOffset st =
     (if currentOffset < endOffset
      then (case (if currentOffset < length buffer \<and> 1 \<le> unat (buffer ! currentOffset) \<and>
                     unat (buffer ! currentOffset) \<le> 19
                  then map_of CMD_DICT_dec (unat (buffer ! currentOffset)) else None) of
              Some cmd \<Rightarrow>
                decodePathData_loop buffer endOffset (currentOffset + 1) (decodeCommand cmd st)
            | None \<Rightarrow>
                (case decodeSignedVarInt buffer currentOffset of
                   Inl e \<Rightarrow> Inl e
                 | Inr (encodedNum, bytesRead) \<Rightarrow>
                     decodePathData_loop buffer endOffset (currentOffset + bytesRead)
                       (decodeNumber encodedNum st)))
      else Inr st)"
  by pat_completeness auto
termination
  by (relation "measure (\<lambda>(buffer, endOffset, currentOffset, st). endOffset - currentOffset)")
     (auto dest: decodeSignedVarInt_bytesRead)

declare decodePathData_loop.simps [simp del]

definition decodePathData :: "buffer \<Rightarrow> nat \<Rightarrow> int \<Rightarrow> error + string" where
  "decodePathData buffer offset len =
     (if int offset + len > int (length buffer) then Inl (PathDataOverflow offset (nat len))
      else (case decodePathData_loop buffer (nat (int offset + len)) offset
                   \<lparr>pathData = [], posX = 0, posY = 0, currentCommand = [],
                    isFirstCoordinate = True, coordCount = 0\<rparr> of
              Inl e \<Rightarrow> Inl e
            | Inr st \<Rightarrow> Inr (trim (pathData st))))"
section \<open>Numbers\<close>

text \<open>
  The numbers \<open>extractPaths\<close> produces with \<open>parseFloat\<close>: \<open>NaN\<close>, an infinity or a
  finite binary64 value. \<open>Fin q\<close> is the number of value \<open>q\<close>; the two zeros are one
  value, as \<open>-0 === 0\<close> and \<open>encodeVarInt\<close> returns \<open>[0]\<close> for both.
\<close>

datatype number = NaN | PosInf | NegInf | Fin rat

text \<open>The number of binary digits of a positive integer.\<close>

function bitLength :: "int \<Rightarrow> int" where
  "bitLength n = (if n \<le> 0 then 0 else 1 + bitLength (n div 2))"
  by pat_completeness auto
termination
  by (relation "measure nat") auto

declare bitLength.simps [simp del]

text \<open>The binary exponent of a positive rational: \<open>2 ^ exponent x \<le> x < 2 ^ (exponent x + 1)\<close>.\<close>

definition exponent :: "rat \<Rightarrow> int" where
  "exponent x =
     (if 1 \<le> x then bitLength \<lfloor>x\<rfloor> - 1 else - bitLength (\<lceil>1 / x\<rceil> - 1))"

definition pow2 :: "int \<Rightarrow> rat" where
  "pow2 e = (if 0 \<le> e then 2 ^ nat e else 1 / 2 ^ nat (- e))"

definition roundHalfEven :: "rat \<Rightarrow> int" where
  "roundHalfEven y =
     (let f = \<lfloor>y\<rfloor>; d = y - of_int f
      in if d < 1 / 2 then f else if 1 / 2 < d then f + 1 else if even f then f else f + 1)"

text \<open>
  The binary64 value nearest to a rational, ties to the even significand \<open>m\<close>: 53
  significant bits, exponents from -1022 (below it the spacing stays \<open>2 ^ -1074\<close>), and
  an infinity when the rounded value reaches \<open>2 ^ 1024\<close>. This is the value of a decimal
  literal and the rounding of every arithmetic operation.
\<close>

definition float64 :: "rat \<Rightarrow> number" where
  "float64 x =
     (if x = 0 then Fin 0
      else (let e = max (exponent \<bar>x\<bar>) (- 1022);
                m = roundHalfEven (\<bar>x\<bar> / pow2 (e - 52))
            in if 1023 < e \<or> (e = 1023 \<and> m = 2 ^ 53)
               then (if x < 0 then NegInf else PosInf)
               else Fin ((if x < 0 then - 1 else 1) * of_int m * pow2 (e - 52))))"

text \<open>
  An operand is read as a binary64 value: \<open>Fin q\<close> with \<open>q\<close> not a binary64 value stands
  for the nearest one, so that \<open>Fin (57 / 200)\<close> is the number \<open>0.285\<close>.
\<close>

definition double :: "number \<Rightarrow> number" where
  "double x = (case x of Fin q \<Rightarrow> float64 q | _ \<Rightarrow> x)"

text \<open>\<open>x * y\<close>\<close>

definition times :: "number \<Rightarrow> number \<Rightarrow> number" where
  "times x y =
     (case (double x, double y) of
        (Fin a, Fin b) \<Rightarrow> float64 (a * b)
      | (Fin a, PosInf) \<Rightarrow> if a = 0 then NaN else if 0 < a then PosInf else NegInf
      | (Fin a, NegInf) \<Rightarrow> if a = 0 then NaN else if 0 < a then NegInf else PosInf
      | (PosInf, Fin b) \<Rightarrow> if b = 0 then NaN else if 0 < b then PosInf else NegInf
      | (NegInf, Fin b) \<Rightarrow> if b = 0 then NaN else if 0 < b then NegInf else PosInf
      | (PosInf, PosInf) \<Rightarrow> PosInf
      | (NegInf, NegInf) \<Rightarrow> PosInf
      | (PosInf, NegInf) \<Rightarrow> NegInf
      | (NegInf, PosInf) \<Rightarrow> NegInf
      | _ \<Rightarrow> NaN)"

text \<open>\<open>Math.round(x)\<close>: the nearest integer, the larger one of two.\<close>

definition mathRoundN :: "number \<Rightarrow> number" where
  "mathRoundN x = (case x of Fin q \<Rightarrow> Fin (of_int (mathRound q)) | _ \<Rightarrow> x)"


section \<open>compress.js: the document\<close>

text \<open>
  \<open>parseInt(s)\<close> without a radix: white space, a sign, then hexadecimal digits after a
  \<open>0x\<close> prefix and decimal digits otherwise; \<open>None\<close> is \<open>NaN\<close>.
\<close>

definition parseInt :: "string \<Rightarrow> int option" where
  "parseInt s =
     (let s1 = dropWhile isWhiteSpace s;
          sgn = (if startsWith s1 ''-'' then - 1 else 1);
          s2 = (if startsWith s1 ''-'' \<or> startsWith s1 ''+'' then drop 1 s1 else s1)
      in if startsWith s2 ''0x'' \<or> startsWith s2 ''0X''
         then (case drop 2 s2 of
                 [] \<Rightarrow> None
               | c # cs \<Rightarrow>
                   (case hexval c of
                      None \<Rightarrow> None
                    | Some d \<Rightarrow> Some (sgn * int (hexDigits_value 0 (c # cs)))))
         else (if takeWhile isDigit s2 = [] then None
               else Some (sgn * int (decimal_value 0 (takeWhile isDigit s2)))))"

text \<open>
  \<open>encodeVarInt(NaN)\<close>: \<open>NaN === 0\<close> and \<open>NaN >= 128\<close> are false, so the single element
  \<open>NaN\<close> is pushed, which \<open>Buffer.from\<close> stores as 0. \<open>encodeSignedVarInt(NaN)\<close>: both
  shifts of \<open>NaN\<close> are 0, so \<open>encodeVarInt(0)\<close> is returned.
\<close>

definition encodeVarIntN :: "int option \<Rightarrow> buffer" where
  "encodeVarIntN v = (case v of None \<Rightarrow> [0] | Some n \<Rightarrow> encodeVarInt n)"

definition encodeSignedVarIntN :: "int option \<Rightarrow> buffer" where
  "encodeSignedVarIntN v = (case v of None \<Rightarrow> encodeVarInt 0 | Some n \<Rightarrow> encodeSignedVarInt n)"

text \<open>\<open>s.split(/\s+/)\<close>\<close>

definition splitSpaces :: "string \<Rightarrow> string list" where
  "splitSpaces s = splitOn CHR '' '' (collapseSpaces s)"

text \<open>\<open>Buffer.from(s)\<close>: the UTF-8 bytes of the string.\<close>

definition utf8 :: "string \<Rightarrow> buffer" where
  "utf8 s = concat (map (\<lambda>c. if code c < 128 then [of_nat (code c)]
                              else [of_nat (192 + code c div 64), of_nat (128 + code c mod 64)]) s)"

definition processViewBox :: "string \<Rightarrow> buffer" where
  "processViewBox viewBox =
     (if startsWith viewBox ''0 0 '' \<and> length (splitOn CHR '' '' viewBox) = 4
      then (let width = parseInt (splitOn CHR '' '' viewBox ! 2);
                height = parseInt (splitOn CHR '' '' viewBox ! 3)
            in if width \<noteq> None \<and> width = height then [1] @ encodeVarIntN width
               else [2] @ encodeVarIntN width @ encodeVarIntN height)
      else (let parts = map parseInt (splitSpaces viewBox)
            in if length parts = 4
               then [3] @ encodeSignedVarIntN (parts ! 0) @ encodeSignedVarIntN (parts ! 1) @
                    encodeVarIntN (parts ! 2) @ encodeVarIntN (parts ! 3)
               else [0] @ encodeVarInt (int (length (utf8 viewBox))) @ utf8 viewBox))"

text \<open>
  \<open>encodeVarInt(x)\<close> on a number. \<open>encodeVarInt(NaN)\<close> and \<open>encodeVarInt(-Infinity)\<close>
  push the number itself, which \<open>Buffer.from\<close> stores as 0. \<open>encodeVarInt(Infinity)\<close>
  runs its loop once, as \<open>Infinity & 0x7F\<close> and \<open>Infinity >>> 7\<close> are 0. A finite
  argument is integer-valued here.
\<close>

definition encodeVarIntNumber :: "number \<Rightarrow> buffer" where
  "encodeVarIntNumber x =
     (case x of
        NaN \<Rightarrow> [0]
      | PosInf \<Rightarrow> [0x80, 0]
      | NegInf \<Rightarrow> [0]
      | Fin q \<Rightarrow> encodeVarInt \<lfloor>q\<rfloor>)"

text \<open>\<open>Math.round(x * k)\<close> and \<open>encodeVarInt(Math.round(x * k))\<close>\<close>

definition scaled :: "number \<Rightarrow> rat \<Rightarrow> number" where
  "scaled x k = mathRoundN (times x (Fin k))"

definition encodeScaled :: "number \<Rightarrow> rat \<Rightarrow> buffer" where
  "encodeScaled x k = encodeVarIntNumber (scaled x k)"

record path =
  pathD :: string
  pathFill :: string
  pathStroke :: string
  pathOpacity :: number
  pathStrokeWidth :: number

text \<open>\<open>hasOpacity\<close>, \<open>hasStrokeWidth\<close> and \<open>flags\<close>\<close>

definition pathFlags :: "path \<Rightarrow> u8" where
  "pathFlags p = (if pathOpacity p \<noteq> Fin 1 then 1 else 0) OR (if pathStrokeWidth p \<noteq> Fin 0 then 2 else 0)"

text \<open>
  The body of \<open>paths.forEach\<close>: \<open>pathSegments\<close> is \<open>Buffer.concat(segments)\<close> for a path
  and its compressed path data, \<open>encodePath\<close> the record written for a path.
\<close>

definition pathSegments :: "path \<Rightarrow> buffer \<Rightarrow> buffer" where
  "pathSegments p compressedD =
     encodeColor (pathFill p) @ encodeColor (pathStroke p) @ [pathFlags p] @
     (if pathOpacity p \<noteq> Fin 1 then encodeScaled (pathOpacity p) 100 else []) @
     (if pathStrokeWidth p \<noteq> Fin 0 then encodeScaled (pathStrokeWidth p) 10 else []) @
     encodeVarInt (int (length compressedD)) @ compressedD"

definition encodePath :: "path \<Rightarrow> buffer" where
  "encodePath p = pathSegments p (compressPathData (pathD p))"

text \<open>
  \<open>compressSVG\<close> from its step 3 on: \<open>viewBox\<close> and \<open>paths\<close> are what
  \<open>extractViewBox\<close> and \<open>extractPaths\<close> return on the optimised markup; the result is
  \<open>combinedBuffer\<close>, which the script stores as base64 text.
\<close>

definition compressSVG :: "string \<Rightarrow> path list \<Rightarrow> buffer" where
  "compressSVG viewBox paths =
     [0x03, of_nat (length paths)] @ processViewBox viewBox @ concat (map encodePath paths)"

section \<open>decompress.js: the document\<close>

definition fromCharCodes :: "buffer \<Rightarrow> string" where
  "fromCharCodes bs = map (\<lambda>b. char_of (unat b)) bs"

text \<open>\<open>bytesRead\<close> is an integer: a string length read from a varint may be negative.\<close>

definition decodeViewBox :: "buffer \<Rightarrow> nat \<Rightarrow> error + (string \<times> int)" where
  "decodeViewBox buffer offset =
     (if offset \<ge> length buffer then Inl (ViewBoxOverflow offset)
      else if buffer ! offset = 0
      then (case decodeVarInt buffer (offset + 1) of
              Inl e \<Rightarrow> Inl e
            | Inr (len, lengthBytes) \<Rightarrow>
                Inr (fromCharCodes (take (nat len) (drop (offset + 1 + lengthBytes) buffer)),
                     1 + int lengthBytes + len))
      else if buffer ! offset = 1
      then (case decodeVarInt buffer (offset + 1) of
              Inl e \<Rightarrow> Inl e
            | Inr (sz, sizeBytes) \<Rightarrow>
                Inr (''0 0 '' @ showInt sz @ '' '' @ showInt sz, 1 + int sizeBytes))
      else if buffer ! offset = 2
      then (case decodeVarInt buffer (offset + 1) of
              Inl e \<Rightarrow> Inl e
            | Inr (width, widthBytes) \<Rightarrow>
                (case decodeVarInt buffer (offset + 1 + widthBytes) of
                   Inl e \<Rightarrow> Inl e
                 | Inr (height, heightBytes) \<Rightarrow>
                     Inr (''0 0 '' @ showInt width @ '' '' @ showInt height,
                          1 + int widthBytes + int heightBytes)))
      else if buffer ! offset = 3
      then (case decodeSignedVarInt buffer (offset + 1) of
              Inl e \<Rightarrow> Inl e
            | Inr (x, xBytes) \<Rightarrow>
                (case decodeSignedVarInt buffer (offset + 1 + xBytes) of
                   Inl e \<Rightarrow> Inl e
                 | Inr (y, yBytes) \<Rightarrow>
                     (case decodeVarInt buffer (offset + 1 + xBytes + yBytes) of
                        Inl e \<Rightarrow> Inl e
                      | Inr (w, wBytes) \<Rightarrow>
                          (case decodeVarInt buffer (offset + 1 + xBytes + yBytes + wBytes) of
                             Inl e \<Rightarrow> Inl e
                           | Inr (h, hBytes) \<Rightarrow>
                               Inr (showInt x @ '' '' @ showInt y @ '' '' @ showInt w @ '' '' @ showInt h,
                                    1 + int xBytes + int yBytes + int wBytes + int hBytes)))))
      else Inl (UnknownViewBoxFormat (unat (buffer ! offset))))"

record pathHeader =
  hFill :: string
  hStroke :: string
  hFlags :: u8
  hOpacity :: rat
  hStrokeWidth :: rat
  hPathDataLength :: int
  hDataOffset :: nat

text \<open>
  The fields of a path record before its path data. At a negative \<open>currentOffset\<close>
  \<open>buffer[offset]\<close> is \<open>undefined\<close>, which \<open>decodeColor\<close> rejects with its last
  \<open>throw\<close>; past the end the flags are \<open>undefined\<close> and both tests on them are false.
\<close>

definition decodePathHeader :: "buffer \<Rightarrow> int \<Rightarrow> error + pathHeader" where
  "decodePathHeader buffer currentOffset =
     (if currentOffset < 0 then Inl (UnknownColorEncoding 0 0)
      else
       (case decodeColor buffer (nat currentOffset) of
          Inl e \<Rightarrow> Inl e
        | Inr (fill, fillBytes) \<Rightarrow>
            (case decodeColor buffer (nat currentOffset + fillBytes) of
               Inl e \<Rightarrow> Inl e
             | Inr (stroke, strokeBytes) \<Rightarrow>
                 (let flagsOffset = nat currentOffset + fillBytes + strokeBytes;
                      flags = (if flagsOffset < length buffer then buffer ! flagsOffset else 0);
                      hasOpacity = (flags AND 1 \<noteq> 0);
                      hasStrokeWidth = (flags AND 2 \<noteq> 0)
                  in case (if hasOpacity
                           then (case decodeVarInt buffer (flagsOffset + 1) of
                                   Inl e \<Rightarrow> Inl e
                                 | Inr (opacityValue, opacityBytes) \<Rightarrow>
                                     Inr (of_int opacityValue / 100, opacityBytes))
                           else Inr (1, 0)) of
                       Inl e \<Rightarrow> Inl e
                     | Inr (opacity, opacityBytes) \<Rightarrow>
                         (case (if hasStrokeWidth
                                then (case decodeVarInt buffer (flagsOffset + 1 + opacityBytes) of
                                        Inl e \<Rightarrow> Inl e
                                      | Inr (strokeWidthValue, strokeWidthBytes) \<Rightarrow>
                                          Inr (of_int strokeWidthValue / 10, strokeWidthBytes))
                                else Inr (0, 0)) of
                            Inl e \<Rightarrow> Inl e
                          | Inr (strokeWidth, strokeWidthBytes) \<Rightarrow>
                              (case decodeVarInt buffer
                                      (flagsOffset + 1 + opacityBytes + strokeWidthBytes) of
                                 Inl e \<Rightarrow> Inl e
                               | Inr (pathDataLength, lengthBytes) \<Rightarrow>
                                   Inr \<lparr>hFill = fill, hStroke = stroke, hFlags = flags,
                                        hOpacity = opacity, hStrokeWidth = strokeWidth,
                                        hPathDataLength = pathDataLength,
                                        hDataOffset = flagsOffset + 1 + opacityBytes +
                                                      strokeWidthBytes + lengthBytes\<rparr>))))))"

definition dq :: char where
  "dq = CHR 0x22"

definition nl :: char where
  "nl = CHR 0x0A"

text \<open>The markup of one path, from its decoded fields.\<close>

definition pathElement :: "pathHeader \<Rightarrow> string \<Rightarrow> string" where
  "pathElement h pathText =
     ''<path d='' @ [dq] @ pathText @ [dq] @ '' fill='' @ [dq] @ hFill h @ [dq] @
     (if hStroke h \<noteq> ''none''
      then '' stroke='' @ [dq] @ hStroke h @ [dq] @
           (if hStrokeWidth h > 0
            then '' stroke-width='' @ [dq] @ toFixed 1 (hStrokeWidth h) @ [dq] else [])
      else []) @
     (if hOpacity h < 1 then '' opacity='' @ [dq] @ toFixed 2 (hOpacity h) @ [dq] else []) @
     ''/>''"

text \<open>The \<open>try\<close> block inside the loop: one path, and the offset after it.\<close>

definition decodePath :: "buffer \<Rightarrow> int \<Rightarrow> error + (string \<times> int)" where
  "decodePath buffer currentOffset =
     (case decodePathHeader buffer currentOffset of
        Inl e \<Rightarrow> Inl e
      | Inr h \<Rightarrow>
          (case decodePathData buffer (hDataOffset h) (hPathDataLength h) of
             Inl e \<Rightarrow> Inl e
           | Inr pathText \<Rightarrow>
               Inr (pathElement h pathText, int (hDataOffset h) + hPathDataLength h)))"

text \<open>
  \<^verbatim>\<open>for (let i = 0; i < pathCount && currentOffset < buffer.length; i++)\<close>, with
  \<open>remaining = pathCount - i\<close>. An error in the body is caught there and ends the loop.
\<close>

fun decodePaths :: "buffer \<Rightarrow> nat \<Rightarrow> int \<Rightarrow> string list \<Rightarrow> string list" where
  "decodePaths buffer 0 currentOffset paths = paths"
| "decodePaths buffer (Suc remaining) currentOffset paths =
     (if currentOffset < int (length buffer)
      then (case decodePath buffer currentOffset of
              Inl e \<Rightarrow> paths
            | Inr (element, nextOffset) \<Rightarrow>
                decodePaths buffer remaining nextOffset (paths @ [element]))
      else paths)"

text \<open>\<open>xs.join(sep)\<close>\<close>

fun join :: "string \<Rightarrow> string list \<Rightarrow> string" where
  "join sep [] = []"
| "join sep [x] = x"
| "join sep (x # y # ys) = x @ sep @ join sep (y # ys)"

definition svgContent :: "string \<Rightarrow> string list \<Rightarrow> string" where
  "svgContent viewBox paths =
     ''<svg xmlns='' @ [dq] @ ''http://www.w3.org/2000/svg'' @ [dq] @ '' viewBox='' @ [dq] @
     viewBox @ [dq] @ ''>'' @ [nl] @ ''  '' @ join ([nl] @ ''  '') paths @ [nl] @ ''</svg>''"

definition fallbackSVG :: string where
  "fallbackSVG =
     ''<svg xmlns='' @ [dq] @ ''http://www.w3.org/2000/svg'' @ [dq] @ '' viewBox='' @ [dq] @
     ''0 0 100 100'' @ [dq] @ ''>'' @ [nl] @
     ''  <path d='' @ [dq] @ ''M10 10L90 90M10 90L90 10'' @ [dq] @ '' stroke='' @ [dq] @
     ''#FF0000'' @ [dq] @ '' stroke-width='' @ [dq] @ ''5'' @ [dq] @ '' fill='' @ [dq] @
     ''none'' @ [dq] @ ''/>'' @ [nl] @
     ''  <circle cx='' @ [dq] @ ''50'' @ [dq] @ '' cy='' @ [dq] @ ''50'' @ [dq] @ '' r='' @ [dq] @
     ''40'' @ [dq] @ '' stroke='' @ [dq] @ ''#000000'' @ [dq] @ '' fill='' @ [dq] @ ''none'' @
     [dq] @ ''/>'' @ [nl] @ ''</svg>''"

text \<open>
  The outer \<open>try\<close> block, on the buffer that \<open>Buffer.from(compressedData, 'base64')\<close>
  yields: \<open>Inl\<close> is an exception that reaches the outer \<open>catch\<close>.
\<close>

definition decompressSVG_try :: "buffer \<Rightarrow> error + string" where
  "decompressSVG_try buffer =
     (if length buffer < 2 then Inl TooShort
      else (case decodeViewBox buffer 2 of
              Inl e \<Rightarrow> Inl e
            | Inr (viewBox, viewBoxBytes) \<Rightarrow>
                Inr (svgContent viewBox
                       (decodePaths buffer (unat (buffer ! 1)) (2 + viewBoxBytes) []))))"

text \<open>The outer \<open>catch\<close> returns the fallback markup.\<close>

definition decompressSVG :: "buffer \<Rightarrow> string" where
  "decompressSVG buffer =
     (case decompressSVG_try buffer of Inl e \<Rightarrow> fallbackSVG | Inr svg \<Rightarrow> svg)"

section \<open>Auxiliary notions for the proofs\<close>

text \<open>
  A byte without the continuation bit ends a varint. A chunk is a non-empty run of bytes
  in which only the last one may end a varint, as every output of \<open>encodeVarInt\<close> is.
\<close>

definition stopByte :: "u8 \<Rightarrow> bool" where
  "stopByte b \<longleftrightarrow> b AND 0x80 = 0"

definition chunk :: "buffer \<Rightarrow> bool" where
  "chunk c \<longleftrightarrow> c \<noteq> [] \<and> filter stopByte (butlast c) = [] \<and> length (filter stopByte c) \<le> 1"

section \<open>The marker-dispatch decoders\<close>


subsection \<open>decompressSpikes.js\<close>


















subsection \<open>workingPhilCompress.js\<close>






subsection \<open>decompressBg.js\<close>







subsection \<open>noGlitchTopDecompress.js\<close>





subsection \<open>decompressNose.js\<close>





subsection \<open>The top decoder with filters (src/unnamed/part_001)\<close>





section \<open>Properties of the variable-length integer codec\<close>

lemma bit_127_int: "bit (127 :: int) n \<longleftrightarrow> n < 7"
proof -
  have "(127 :: int) = mask 7" by (simp add: mask_eq_exp_minus_1)
  then show ?thesis by (simp only: bit_mask_iff) auto
qed

lemma bit_128_int: "bit (128 :: int) n \<longleftrightarrow> n = 7"
proof -
  have "(128 :: int) = 2 ^ 7" by simp
  then show ?thesis by (simp only: bit_exp_iff) auto
qed

lemma take_drop7: "take_bit 7 (w :: i32) OR push_bit 7 (drop_bit 7 w) = w"
proof (rule bit_eqI)
  fix n
  show "bit (take_bit 7 w OR push_bit 7 (drop_bit 7 w)) n = bit w n"
    by (cases "n < 7") (auto simp add: bit_simps not_less dest: bit_imp_le_length)
qed

lemma and_x7F: "(w :: 'a::len word) AND 0x7F = take_bit 7 w"
  by (rule bit_eqI) (auto simp add: bit_simps bit_127_int)

lemma split7: "push_bit s (w AND 0x7F) OR push_bit (s + 7) (drop_bit 7 w) = push_bit s (w :: i32)"
proof -
  have "push_bit s (w AND 0x7F) OR push_bit (s + 7) (drop_bit 7 w) = push_bit s (take_bit 7 w OR push_bit 7 (drop_bit 7 w))"
    by (simp add: and_x7F push_bit_add add.commute)
  then show ?thesis by (simp only: take_drop7)
qed

lemma cont_byte: "(ucast (((w :: i32) AND 0x7F) OR 0x80) :: u8) AND 0x80 \<noteq> 0"
proof -
  have "bit ((ucast (((w :: i32) AND 0x7F) OR 0x80) :: u8) AND 0x80) 7"
    by (simp add: bit_simps bit_127_int bit_128_int)
  then show ?thesis by auto
qed

lemma cont_low: "ucast ((ucast (((w :: i32) AND 0x7F) OR 0x80) :: u8) AND 0x7F) = w AND 0x7F"
  by (rule bit_eqI) (auto simp add: bit_simps bit_127_int bit_128_int)

lemma last_byte_stop:
  assumes "0 \<le> num" "num < 128"
  shows "(word_of_int num :: u8) AND 0x80 = 0"
proof -
  have "take_bit 7 num = num" using assms by (simp add: take_bit_int_eq_self)
  then have "\<not> bit num 7" by (metis bit_take_bit_iff less_irrefl)
  then show ?thesis by (intro bit_eqI) (auto simp add: bit_simps bit_128_int)
qed

lemma last_byte_low:
  assumes "0 \<le> num" "num < 128"
  shows "(ucast ((word_of_int num :: u8) AND 0x7F) :: i32) = word_of_int num"
proof -
  have t: "take_bit 7 num = num" using assms by (simp add: take_bit_int_eq_self)
  have "\<And>n. bit num n \<Longrightarrow> n < 7" by (metis t bit_take_bit_iff)
  then show ?thesis by (intro bit_eqI) (force simp add: bit_simps bit_127_int)
qed


lemma encodeVarInt_loop_append:
  "encodeVarInt_loop num (xs @ ys) = xs @ encodeVarInt_loop num ys"
proof (induction num ys arbitrary: xs rule: encodeVarInt_loop.induct)
  case (1 num bytes)
  show ?case
  proof (cases "128 \<le> num")
    case True
    with 1 [of xs] show ?thesis
      by (subst (1 2) encodeVarInt_loop.simps) simp
  next
    case False
    then show ?thesis by (subst (1 2) encodeVarInt_loop.simps) simp
  qed
qed

lemma encodeVarInt_loop_Nil:
  "encodeVarInt_loop num [] =
     (if 128 \<le> num
      then ucast (((word_of_int num :: i32) AND 0x7F) OR 0x80) #
           encodeVarInt_loop (uint (drop_bit 7 (word_of_int num :: i32))) []
      else [word_of_int num])"
  using encodeVarInt_loop_append [of _ "[_]" "[]"]
  by (subst encodeVarInt_loop.simps) simp

lemma uint_drop7:
  assumes "0 \<le> num" "num < 2 ^ 32"
  shows "uint (drop_bit 7 (word_of_int num :: i32)) = num div 128"
  using assms by (simp add: drop_bit_eq_div uint_div_distrib uint_word_of_int_eq take_bit_eq_mod)

lemma decode_encode_loop:
  assumes "0 \<le> num" "shift < 32" "num < 2 ^ (32 - shift)" "length pre = offset + bytesRead"
  shows "decodeVarInt_loop (pre @ encodeVarInt_loop num [] @ post) offset result shift bytesRead =
         Inr (sint (result OR push_bit shift (word_of_int num)),
              bytesRead + length (encodeVarInt_loop num []))"
  using assms
proof (induction "nat num" arbitrary: num pre result shift bytesRead rule: less_induct)
  case less
  let ?w = "word_of_int num :: i32"
  have lt32: "num < 2 ^ 32"
  proof -
    have "(2::int) ^ (32 - shift) \<le> 2 ^ 32" by (rule power_increasing) auto
    with less.prems(3) show ?thesis by linarith
  qed
  show ?case
  proof (cases "128 \<le> num")
    case False
    then have enc: "encodeVarInt_loop num [] = [word_of_int num]"
      by (simp add: encodeVarInt_loop_Nil)
    have small: "num < 128" using False by simp
    have nth: "(pre @ [word_of_int num :: u8] @ post) ! (offset + bytesRead) = word_of_int num"
      using less.prems(4) by (simp add: nth_append)
    show ?thesis
      unfolding enc
      apply (subst decodeVarInt_loop.simps)
      using less.prems(1,2,4) small nth
      by (simp add: last_byte_stop last_byte_low)
  next
    case True
    let ?b = "ucast ((?w AND 0x7F) OR 0x80) :: u8"
    let ?num' = "uint (drop_bit 7 ?w)"
    have num': "?num' = num div 128" using less.prems(1) lt32 by (rule uint_drop7)
    have enc: "encodeVarInt_loop num [] = ?b # encodeVarInt_loop ?num' []"
      using True by (subst encodeVarInt_loop_Nil) simp
    have sh: "shift + 7 < 32"
    proof (rule ccontr)
      assume "\<not> shift + 7 < 32"
      then have "32 - shift \<le> 7" by simp
      then have "(2::int) ^ (32 - shift) \<le> 2 ^ 7" by (rule power_increasing) simp
      with less.prems(3) True show False by simp
    qed
    have bound: "?num' < 2 ^ (32 - (shift + 7))"
    proof -
      have "32 - shift = (32 - (shift + 7)) + 7" using sh by simp
      then have "(2::int) ^ (32 - shift) = 2 ^ (32 - (shift + 7)) * 2 ^ 7"
        by (simp only: power_add)
      with less.prems(3) have "num < 2 ^ (32 - (shift + 7)) * 128" by simp
      then have "num div 128 < 2 ^ (32 - (shift + 7))"
        by (simp add: div_less_iff_less_mult) 
      with num' show ?thesis by simp
    qed
    have dec: "nat ?num' < nat num" using num' True by simp
    have ih: "decodeVarInt_loop ((pre @ [?b]) @ encodeVarInt_loop ?num' [] @ post) offset
                (result OR push_bit shift (?w AND 0x7F)) (shift + 7) (bytesRead + 1) =
              Inr (sint ((result OR push_bit shift (?w AND 0x7F)) OR push_bit (shift + 7) (word_of_int ?num')),
                   (bytesRead + 1) + length (encodeVarInt_loop ?num' []))"
      using less.prems(1,4) num' sh bound by (intro less.hyps [OF dec]) auto
    have w': "(word_of_int ?num' :: i32) = drop_bit 7 ?w" by simp
    have val: "(result OR push_bit shift (?w AND 0x7F)) OR push_bit (shift + 7) (word_of_int ?num')
               = result OR push_bit shift ?w"
      unfolding w' by (simp only: or.assoc split7)
    have nth: "(pre @ (?b # encodeVarInt_loop ?num' []) @ post) ! (offset + bytesRead) = ?b"
      using less.prems(4) by (simp add: nth_append)
    have len: "offset + bytesRead < length (pre @ (?b # encodeVarInt_loop ?num' []) @ post)"
      using less.prems(4) by simp
    show ?thesis
      unfolding enc
      apply (subst decodeVarInt_loop.simps)
      using len nth less.prems(2) ih val
      by (simp add: cont_byte cont_low)
  qed
qed


lemma sint_word_of_int_i32:
  assumes "- (2 ^ 31) \<le> n" "n < 2 ^ 31"
  shows "sint (word_of_int n :: i32) = n"
  using assms by (simp add: sint_sbintrunc' signed_take_bit_int_eq_self)

lemma decodeVarInt_encodeVarInt_at:
  assumes "0 \<le> n" "n < 2 ^ 31"
  shows "decodeVarInt (pre @ encodeVarInt n @ post) (length pre) = Inr (n, length (encodeVarInt n))"
proof (cases "n = 0")
  case True
  have "(pre @ [0 :: u8] @ post) ! length pre = 0" by (simp add: nth_append)
  then show ?thesis
    unfolding decodeVarInt_def encodeVarInt_def using True
    by (subst decodeVarInt_loop.simps) simp
next
  case False
  have "decodeVarInt_loop (pre @ encodeVarInt_loop n [] @ post) (length pre) 0 0 0 =
        Inr (sint (0 OR push_bit 0 (word_of_int n :: i32)), 0 + length (encodeVarInt_loop n []))"
    using assms by (intro decode_encode_loop) auto
  then show ?thesis
    unfolding decodeVarInt_def encodeVarInt_def using False assms
    by (simp add: sint_word_of_int_i32)
qed

text \<open>
  C1: for every integer \<open>n\<close> with \<open>0 \<le> n < 2^28\<close>, \<open>decodeVarInt\<close> at offset 0 of
  the buffer written by \<open>encodeVarInt n\<close> returns the value \<open>n\<close> and a \<open>bytesRead\<close> equal
  to the length of that buffer.
\<close>

theorem varint_roundtrip:
  assumes "0 \<le> n" "n < 2 ^ 28"
  shows "decodeVarInt (encodeVarInt n) 0 = Inr (n, length (encodeVarInt n))"
  using decodeVarInt_encodeVarInt_at [of n "[]" "[]"] assms by simp

theorem varint_roundtrip_witness:
  "(0::int) \<le> 300 \<and> (300::int) < 2 ^ 28 \<and>
   decodeVarInt (encodeVarInt 300) 0 = Inr (300, length (encodeVarInt 300))"
  using varint_roundtrip [of 300] by simp

lemma signed_drop_bit_31:
  "signed_drop_bit 31 (w :: i32) = (if bit w 31 then - 1 else 0)"
proof (rule bit_eqI)
  fix n :: nat
  assume "possible_bit TYPE(i32) n"
  then have n: "n < 32" by (simp add: possible_bit_def)
  have "bit (signed_drop_bit 31 w) n = bit w 31"
    using n by (cases "n = 0") (simp_all add: bit_signed_drop_bit_iff)
  then show "bit (signed_drop_bit 31 w) n = bit (if bit w 31 then - 1 else 0 :: i32) n"
    using n by simp
qed

lemma unzigzag_word:
  fixes w :: i32
  defines "z \<equiv> push_bit 1 w XOR signed_drop_bit 31 w"
  shows "drop_bit 1 z XOR - (z AND 1) = w"
proof -
  define p where "p = push_bit 1 w"
  have pb: "bit p m \<longleftrightarrow> m < 32 \<and> 1 \<le> m \<and> bit w (m - 1)" for m
    unfolding p_def by (simp only: bit_push_bit_iff possible_bit_word) auto
  have ev: "even p" unfolding p_def by simp
  show ?thesis
  proof (cases "bit w 31")
    case True
    then have z: "z = NOT p" by (simp add: z_def signed_drop_bit_31 p_def)
    have "odd z" using ev by (simp add: z)
    then have "z AND 1 = 1" by (simp add: and_one_eq mod_2_eq_odd)
    then have "drop_bit 1 z XOR - (z AND 1) = NOT (drop_bit 1 z)" by simp
    also have "\<dots> = w"
    proof (rule bit_eqI)
      fix n
      show "bit (NOT (drop_bit 1 z)) n = bit w n"
        using True by (cases "n = 31") (auto simp add: z pb bit_simps dest: bit_imp_le_length)
    qed
    finally show ?thesis .
  next
    case False
    then have z: "z = p" by (simp add: z_def signed_drop_bit_31 p_def)
    have "even z" using ev by (simp add: z)
    then have "z AND 1 = 0" by (simp add: and_one_eq mod_2_eq_odd)
    then have "drop_bit 1 z XOR - (z AND 1) = drop_bit 1 z" by simp
    also have "\<dots> = w"
    proof (rule bit_eqI)
      fix n
      show "bit (drop_bit 1 z) n = bit w n"
        using False by (cases "n = 31") (auto simp add: z pb bit_simps dest: bit_imp_le_length)
    qed
    finally show ?thesis .
  qed
qed

lemma unzigzag_zigzag:
  assumes "- (2 ^ 31) \<le> n" "n < 2 ^ 31"
  shows "unzigzag (zigzag n) = n"
  using unzigzag_word [of "word_of_int n"] assms
  by (simp add: unzigzag_def zigzag_def sint_word_of_int_i32)

lemma zigzag_value:
  assumes "- (2 ^ 30) \<le> n" "n < 2 ^ 30"
  shows "zigzag n = (if 0 \<le> n then 2 * n else - 2 * n - 1)"
proof -
  let ?w = "word_of_int n :: i32"
  have neg: "bit ?w 31 \<longleftrightarrow> n < 0"
  proof (cases "n < 0")
    case True
    then have "n div 2 ^ 31 = - 1" using assms by (intro int_div_pos_eq [where r = "n + 2 ^ 31"]) auto
    with True show ?thesis by (simp add: bit_word_of_int_iff bit_int_def)
  next
    case False
    then have "n div 2 ^ 31 = 0" using assms by simp
    with False show ?thesis by (simp add: bit_word_of_int_iff bit_int_def)
  qed
  have p: "push_bit 1 ?w = word_of_int (2 * n)" by (simp add: push_bit_eq_mult)
  have r: "- (2 ^ 31) \<le> 2 * n" "2 * n < 2 ^ 31" "- (2 ^ 31) \<le> - 2 * n - 1" "- 2 * n - 1 < 2 ^ 31"
    using assms by auto
  show ?thesis
  proof (cases "0 \<le> n")
    case True
    then have "push_bit 1 ?w XOR signed_drop_bit 31 ?w = word_of_int (2 * n)"
      using neg by (simp add: signed_drop_bit_31 p)
    then show ?thesis using True sint_word_of_int_i32 [OF r(1,2)] by (simp only: zigzag_def if_True)
  next
    case False
    then have "push_bit 1 ?w XOR signed_drop_bit 31 ?w = NOT (word_of_int (2 * n))"
      using neg by (simp add: signed_drop_bit_31 p)
    also have "\<dots> = word_of_int (- 2 * n - 1)"
      by (simp add: not_eq_complement minus_diff_commute)
    finally show ?thesis using False sint_word_of_int_i32 [OF r(3,4)] by (simp only: zigzag_def if_False)
  qed
qed

text \<open>
  C2: for every integer \<open>n\<close> with \<open>-2^27 < n < 2^27\<close>, \<open>decodeSignedVarInt\<close> at offset 0
  of the buffer written by \<open>encodeSignedVarInt n\<close> returns \<open>n\<close>. The encoder applies the
  zigzag map \<open>(n << 1) ^ (n >> 31)\<close> and the decoder \<open>(v >>> 1) ^ -(v & 1)\<close>, both on 32-bit
  integers (\<open>zigzag\<close> and \<open>unzigzag\<close> above).
\<close>

theorem signed_varint_roundtrip:
  assumes "- (2 ^ 27) < n" "n < 2 ^ 27"
  shows "decodeSignedVarInt (encodeSignedVarInt n) 0 = Inr (n, length (encodeSignedVarInt n))"
proof -
  have zv: "zigzag n = (if 0 \<le> n then 2 * n else - 2 * n - 1)"
    using assms by (intro zigzag_value) auto
  then have "0 \<le> zigzag n" "zigzag n < 2 ^ 28" using assms by auto
  then have "decodeVarInt (encodeVarInt (zigzag n)) 0 = Inr (zigzag n, length (encodeVarInt (zigzag n)))"
    using decodeVarInt_encodeVarInt_at [of "zigzag n" "[]" "[]"] by simp
  moreover have "unzigzag (zigzag n) = n" using assms by (intro unzigzag_zigzag) auto
  ultimately show ?thesis by (simp add: decodeSignedVarInt_def encodeSignedVarInt_def)
qed

theorem signed_varint_roundtrip_witness:
  "- (2 ^ 27) < (- 5 :: int) \<and> (- 5 :: int) < 2 ^ 27 \<and>
   decodeSignedVarInt (encodeSignedVarInt (- 5)) 0 = Inr (- 5, length (encodeSignedVarInt (- 5)))"
  using signed_varint_roundtrip [of "- 5"] by simp
subsection \<open>Truncated input\<close>

lemma decodeVarInt_loop_Inl_iff:
  "(\<exists>e. decodeVarInt_loop buffer offset result shift bytesRead = Inl e) \<longleftrightarrow>
   (\<forall>i. offset + bytesRead \<le> i \<and> i < length buffer \<longrightarrow> buffer ! i AND 0x80 \<noteq> 0)"
proof (induction buffer offset result shift bytesRead rule: decodeVarInt_loop.induct)
  case (1 buffer offset result shift bytesRead)
  show ?case
  proof (cases "length buffer \<le> offset + bytesRead")
    case True
    then show ?thesis by (subst decodeVarInt_loop.simps) auto
  next
    case inside: False
    show ?thesis
    proof (cases "buffer ! (offset + bytesRead) AND 0x80 \<noteq> 0")
      case True
      have "(\<forall>i. offset + (bytesRead + 1) \<le> i \<and> i < length buffer \<longrightarrow> buffer ! i AND 0x80 \<noteq> 0) \<longleftrightarrow>
            (\<forall>i. offset + bytesRead \<le> i \<and> i < length buffer \<longrightarrow> buffer ! i AND 0x80 \<noteq> 0)"
        using True by (metis Suc_eq_plus1 add_Suc_right le_antisym not_less_eq_eq nat_le_linear)
      with 1 [OF _ True] inside True show ?thesis
        by (subst decodeVarInt_loop.simps) simp
    next
      case False
      with inside show ?thesis
        by (subst decodeVarInt_loop.simps) (auto simp add: not_le)
    qed
  qed
qed

lemma decodeVarInt_loop_stops:
  assumes "offset + bytesRead \<le> k" "k < length buffer" "buffer ! k AND 0x80 = 0"
    and "\<forall>i. offset + bytesRead \<le> i \<and> i < k \<longrightarrow> buffer ! i AND 0x80 \<noteq> 0"
  shows "\<exists>v. decodeVarInt_loop buffer offset result shift bytesRead = Inr (v, k - offset + 1)"
  using assms
proof (induction buffer offset result shift bytesRead rule: decodeVarInt_loop.induct)
  case (1 buffer offset result shift bytesRead)
  have inside: "\<not> length buffer \<le> offset + bytesRead" using "1.prems" by simp
  show ?case
  proof (cases "buffer ! (offset + bytesRead) AND 0x80 \<noteq> 0")
    case True
    then have "offset + bytesRead \<noteq> k" using "1.prems"(3) by auto
    then have "offset + (bytesRead + 1) \<le> k" using "1.prems"(1) by simp
    moreover have "\<forall>i. offset + (bytesRead + 1) \<le> i \<and> i < k \<longrightarrow> buffer ! i AND 0x80 \<noteq> 0"
      using "1.prems"(4) by simp
    ultimately have "\<exists>v. decodeVarInt_loop buffer offset
        (result OR push_bit (shift mod 32) (ucast (buffer ! (offset + bytesRead) AND 0x7F)))
        (shift + 7) (bytesRead + 1) = Inr (v, k - offset + 1)"
      using "1.IH" [OF inside True] "1.prems"(2,3) by blast
    then show ?thesis using inside True by (subst decodeVarInt_loop.simps) simp
  next
    case False
    then have "\<not> offset + bytesRead < k" using "1.prems"(4) by blast
    then have "k = offset + bytesRead" using "1.prems"(1) by simp
    then show ?thesis using inside False by (subst decodeVarInt_loop.simps) simp
  qed
qed

text \<open>
  C6: \<open>decodeVarInt buffer offset\<close> throws exactly when the varint is truncated, that is
  when \<open>offset\<close> is at or past the end of the buffer or every byte from \<open>offset\<close> to the
  end has its continuation bit set; otherwise it returns, and \<open>bytesRead\<close> counts the bytes
  up to and including the first byte \<open>k\<close> whose high bit is unset.
\<close>

theorem decodeVarInt_throws_iff_truncated:
  "((\<exists>e. decodeVarInt buffer offset = Inl e) \<longleftrightarrow>
      (length buffer \<le> offset \<or>
       (\<forall>i. offset \<le> i \<and> i < length buffer \<longrightarrow> buffer ! i AND 0x80 \<noteq> 0))) \<and>
   (\<forall>k. offset \<le> k \<and> k < length buffer \<and> buffer ! k AND 0x80 = 0 \<and>
        (\<forall>i. offset \<le> i \<and> i < k \<longrightarrow> buffer ! i AND 0x80 \<noteq> 0) \<longrightarrow>
        (\<exists>v. decodeVarInt buffer offset = Inr (v, k - offset + 1)))"
proof (intro conjI allI impI)
  show "(\<exists>e. decodeVarInt buffer offset = Inl e) \<longleftrightarrow>
      (length buffer \<le> offset \<or>
       (\<forall>i. offset \<le> i \<and> i < length buffer \<longrightarrow> buffer ! i AND 0x80 \<noteq> 0))"
    unfolding decodeVarInt_def decodeVarInt_loop_Inl_iff by auto
next
  fix k
  assume "offset \<le> k \<and> k < length buffer \<and> buffer ! k AND 0x80 = 0 \<and>
        (\<forall>i. offset \<le> i \<and> i < k \<longrightarrow> buffer ! i AND 0x80 \<noteq> 0)"
  then show "\<exists>v. decodeVarInt buffer offset = Inr (v, k - offset + 1)"
    unfolding decodeVarInt_def by (intro decodeVarInt_loop_stops) auto
qed


theorem decodeVarInt_throws_iff_truncated_witness:
  "(\<exists>e. decodeVarInt [0x80, 0x80] 0 = Inl e) \<and> (\<exists>v. decodeVarInt [0x80, 0x01, 0x05] 0 = Inr (v, 2))"
proof
  have "\<forall>i. 0 \<le> i \<and> i < length [0x80, 0x80 :: u8] \<longrightarrow> [0x80, 0x80 :: u8] ! i AND 0x80 \<noteq> 0"
    by (simp add: nth_Cons' less_Suc_eq)
  with decodeVarInt_throws_iff_truncated [of "[0x80, 0x80]" 0]
  show "\<exists>e. decodeVarInt [0x80, 0x80] 0 = Inl e" by blast
next
  have "(0::nat) \<le> 1 \<and> 1 < length [0x80, 0x01, 0x05 :: u8] \<and> [0x80, 0x01, 0x05 :: u8] ! 1 AND 0x80 = 0 \<and>
        (\<forall>i. 0 \<le> i \<and> i < (1::nat) \<longrightarrow> [0x80, 0x01, 0x05 :: u8] ! i AND 0x80 \<noteq> 0)"
    by simp
  with decodeVarInt_throws_iff_truncated [of "[0x80, 0x01, 0x05]" 0]
  have "\<exists>v. decodeVarInt [0x80, 0x01, 0x05] 0 = Inr (v, 1 - 0 + 1)" by blast
  then show "\<exists>v. decodeVarInt [0x80, 0x01, 0x05] 0 = Inr (v, 2)" by (simp add: numeral_2_eq_2)
qed
section \<open>Properties of the color codec\<close>

lemmas str_defs = startsWith_def toUpperCase_def toUpperChar_def isLower_def isUpper_def isDigit_def
  isWhiteSpace_def code_def padStart_def substring_def hexDigit_def hexval_def

lemma code_char_of: "code (char_of n) = n mod 256"
  by (simp add: code_def)

lemma toUpperChar_idem: "toUpperChar (toUpperChar c) = toUpperChar c"
proof (cases "isLower c")
  case True
  then have "code c - 32 < 256" "\<not> (97 \<le> code c - 32)" by (auto simp add: isLower_def)
  then have "\<not> isLower (char_of (code c - 32))"
    by (simp add: isLower_def code_char_of)
  with True show ?thesis by (simp add: toUpperChar_def)
next
  case False
  then show ?thesis by (simp add: toUpperChar_def)
qed

lemma toUpperCase_idem: "toUpperCase (toUpperCase s) = toUpperCase s"
  by (simp add: toUpperCase_def toUpperChar_idem)

lemma code_upper_hexDigit_all:
  "\<forall>d \<in> set [0..<16]. code (toUpperChar (hexDigit d)) = (if d < 10 then 48 + d else 55 + d)"
  by (simp add: upt_rec str_defs)

lemma code_upper_hexDigit:
  "d < 16 \<Longrightarrow> code (toUpperChar (hexDigit d)) = (if d < 10 then 48 + d else 55 + d)"
  using code_upper_hexDigit_all by simp

lemma dict_cases:
  "\<forall>(c, v) \<in> set COLOR_DICT. map_of COLOR_DICT c = Some v \<and>
     encodeColor c = [of_nat v] \<and>
     decodeColor [of_nat v] 0 = Inr (if c = ''none'' then ''none'' else CHR ''#'' # c, 1) \<and>
     (c \<noteq> ''none'' \<longrightarrow> v \<noteq> 0 \<and> length c = 6 \<and> code (hd c) \<notin> {35, 82})"
  by (simp add: COLOR_DICT_def encodeColor_def colorHex_def dictTruthy_def decodeColor_def COLOR_DICT_dec_def str_defs)

lemma encodeColor_hash:
  assumes "toUpperCase s = c" "map_of COLOR_DICT c = Some v" "v \<noteq> 0" "length c = 6"
  shows "encodeColor (CHR ''#'' # s) = [of_nat v]"
  using assms by (simp add: encodeColor_def colorHex_def startsWith_def)

lemma encodeColor_bare:
  assumes "toUpperCase s = c" "map_of COLOR_DICT c = Some v" "v \<noteq> 0" "length c = 6"
    and "code (hd c) \<notin> {35, 82}"
  shows "encodeColor s = [of_nat v]"
proof -
  have len: "length s = 6" using assms(1,4) by (auto simp add: toUpperCase_def)
  then obtain x xs where s: "s = x # xs" by (cases s) auto
  have hd: "hd c = toUpperChar x" using assms(1) s by (auto simp add: toUpperCase_def)
  have "x \<noteq> CHR ''#''" "x \<noteq> CHR ''r''"
    using assms(5) hd by (auto simp add: str_defs)
  then have "\<not> startsWith s ''#''" "\<not> startsWith s ''rgb''"
    by (auto simp add: s startsWith_def)
  moreover have "s \<noteq> []" "s \<noteq> ''none''" using len by auto
  ultimately show ?thesis
    using assms(1,2,3) by (simp add: encodeColor_def colorHex_def dictTruthy_def)
qed

text \<open>
  C3: for every color string \<open>c\<close> of the color dictionary (the 18 six-digit colors and
  \<open>none\<close>), \<open>encodeColor c\<close> is the one byte holding its index and \<open>decodeColor\<close> of it
  returns \<open>c\<close> up to case normalisation: \<open>none\<close> for \<open>none\<close>, and \<open>#\<close> followed by the six
  upper-case digits for a hexadecimal color, whatever the case of the letters of the input
  and with or without a leading \<open>#\<close>.
\<close>

theorem dictionary_color_roundtrip:
  "\<forall>(c, v) \<in> set COLOR_DICT.
     encodeColor c = [of_nat v] \<and>
     decodeColor (encodeColor c) 0 = Inr (if c = ''none'' then ''none'' else CHR ''#'' # c, 1) \<and>
     (c \<noteq> ''none'' \<longrightarrow>
        (\<forall>s. toUpperCase s = c \<longrightarrow>
           decodeColor (encodeColor s) 0 = Inr (CHR ''#'' # c, 1) \<and>
           decodeColor (encodeColor (CHR ''#'' # s)) 0 = Inr (CHR ''#'' # c, 1)))"
proof (intro ballI, clarify, intro conjI impI allI)
  fix c v s
  assume cv: "(c, v) \<in> set COLOR_DICT"
  from dict_cases cv have m: "map_of COLOR_DICT c = Some v"
    and e: "encodeColor c = [of_nat v]"
    and d: "decodeColor [of_nat v] 0 = Inr (if c = ''none'' then ''none'' else CHR ''#'' # c, 1)"
    and h: "c \<noteq> ''none'' \<Longrightarrow> v \<noteq> 0 \<and> length c = 6 \<and> code (hd c) \<notin> {35, 82}"
    by blast+
  show "encodeColor c = [of_nat v]" by (rule e)
  show "decodeColor (encodeColor c) 0 = Inr (if c = ''none'' then ''none'' else CHR ''#'' # c, 1)"
    using e d by simp
  assume ne: "c \<noteq> ''none''" and up: "toUpperCase s = c"
  show "decodeColor (encodeColor s) 0 = Inr (CHR ''#'' # c, 1)"
    using encodeColor_bare [OF up m] h [OF ne] d ne by simp
  show "decodeColor (encodeColor (CHR ''#'' # s)) 0 = Inr (CHR ''#'' # c, 1)"
    using encodeColor_hash [OF up m] h [OF ne] d ne by simp
qed

theorem dictionary_color_roundtrip_witness:
  "(''FFA500'', 11) \<in> set COLOR_DICT \<and> encodeColor ''FFA500'' = [11] \<and>
   decodeColor (encodeColor ''FFA500'') 0 = Inr (''#FFA500'', 1) \<and>
   toUpperCase ''ffa500'' = ''FFA500'' \<and>
   decodeColor (encodeColor ''#ffa500'') 0 = Inr (''#FFA500'', 1)"
proof -
  have a: "(''FFA500'', 11) \<in> set COLOR_DICT" by (simp add: COLOR_DICT_def)
  have b: "toUpperCase ''ffa500'' = ''FFA500''" by (simp add: str_defs char_of_eq_iff)
  from dictionary_color_roundtrip a b show ?thesis by fastforce
qed
lemma toString16_nat_small: "n < 16 \<Longrightarrow> toString16_nat n = [hexDigit n]"
  by (subst toString16_nat.simps) simp

lemma byteHex_eq: "byteHex x = [hexDigit (unat x div 16), hexDigit (unat x mod 16)]"
proof -
  have lt: "unat x < 256" using unsigned_less [of x, where ?'a = nat] by simp
  have ts: "toString16 (uint x) = toString16_nat (unat x)"
    by (simp add: toString16_def)
  show ?thesis
  proof (cases "unat x < 16")
    case True
    then show ?thesis
      by (simp add: byteHex_def ts toString16_nat_small padStart_def hexDigit_def char_of_eq_iff eq_commute [of "CHR ''0''"])
  next
    case False
    then have "unat x div 16 < 16" using lt by simp
    then have "toString16_nat (unat x) = [hexDigit (unat x div 16), hexDigit (unat x mod 16)]"
      using False by (subst toString16_nat.simps) (simp add: toString16_nat_small)
    then show ?thesis by (simp add: byteHex_def ts padStart_def)
  qed
qed

lemma hexval_upper_hexDigit: "d < 16 \<Longrightarrow> hexval (toUpperChar (hexDigit d)) = Some d"
  using code_upper_hexDigit [of d] by (auto simp add: hexval_def isDigit_def)

lemma upper_hexDigit_plain:
  assumes "d < 16"
  shows "\<not> isWhiteSpace (toUpperChar (hexDigit d))"
    and "toUpperChar (hexDigit d) \<noteq> CHR ''-''" and "toUpperChar (hexDigit d) \<noteq> CHR ''+''"
    and "toUpperChar (hexDigit d) \<noteq> CHR ''x''" and "toUpperChar (hexDigit d) \<noteq> CHR ''X''"
proof -
  let ?c = "toUpperChar (hexDigit d)"
  have c: "code ?c = (if d < 10 then 48 + d else 55 + d)"
    using assms by (rule code_upper_hexDigit)
  show "\<not> isWhiteSpace ?c" using c assms by (auto simp add: isWhiteSpace_def)
  have "code ?c \<noteq> 45" "code ?c \<noteq> 43" "code ?c \<noteq> 120" "code ?c \<noteq> 88"
    using c assms by auto
  then show "?c \<noteq> CHR ''-''" "?c \<noteq> CHR ''+''" "?c \<noteq> CHR ''x''" "?c \<noteq> CHR ''X''"
    by (auto simp add: code_def)
qed

lemma parseInt16_two_digits:
  assumes "a < 16" "b < 16"
  shows "parseInt16 [toUpperChar (hexDigit a), toUpperChar (hexDigit b)] = Some (int (16 * a + b))"
  using assms upper_hexDigit_plain [of a] upper_hexDigit_plain [of b]
  by (simp add: parseInt16_def startsWith_def hexval_upper_hexDigit)

lemma toByte_nibbles: "toByte (Some (int (16 * (unat x div 16) + unat x mod 16))) = x"
proof -
  have "16 * (unat x div 16) + unat x mod 16 = unat x" by simp
  then show ?thesis by (simp add: toByte_def)
qed

lemma hexForm_eq:
  "hexForm r g b =
     [toUpperChar (hexDigit (unat r div 16)), toUpperChar (hexDigit (unat r mod 16)),
      toUpperChar (hexDigit (unat g div 16)), toUpperChar (hexDigit (unat g mod 16)),
      toUpperChar (hexDigit (unat b div 16)), toUpperChar (hexDigit (unat b mod 16))]"
  by (simp add: hexForm_def byteHex_eq toUpperCase_def)

lemma nibble_bounds: "unat (x :: u8) div 16 < 16" "unat x mod 16 < 16"
  using unsigned_less [of x, where ?'a = nat] by simp_all

lemma parseInt16_hexForm:
  "parseInt16 (substring (hexForm r g b) 0 2) = Some (uint r)"
  "parseInt16 (substring (hexForm r g b) 2 4) = Some (uint g)"
  "parseInt16 (substring (hexForm r g b) 4 6) = Some (uint b)"
  by (simp_all add: hexForm_eq substring_def parseInt16_two_digits nibble_bounds)

lemma rgbBytes_hexForm: "rgbBytes (hexForm r g b) = [254, r, g, b]"
  by (simp add: rgbBytes_def parseInt16_hexForm toByte_def)

lemma toUpperCase_hexForm: "toUpperCase (hexForm r g b) = hexForm r g b"
  by (simp add: hexForm_def toUpperCase_idem)

lemma decodeColor_rgb:
  "decodeColor (pre @ [254, r, g, b] @ post) (length pre) = Inr (CHR ''#'' # hexForm r g b, 4)"
proof -
  have "toUpperCase (CHR ''#'' # byteHex r @ byteHex g @ byteHex b) = CHR ''#'' # hexForm r g b"
    by (simp add: hexForm_def toUpperCase_def toUpperChar_def isLower_def code_def)
  then show ?thesis
    by (simp add: decodeColor_def nth_append COLOR_DICT_dec_def)
qed

lemma encodeColor_hash_rgb:
  assumes "toUpperCase s = hexForm r g b" "map_of COLOR_DICT (hexForm r g b) = None"
  shows "encodeColor (CHR ''#'' # s) = [254, r, g, b]"
proof -
  have "length (hexForm r g b) = 6" by (simp add: hexForm_eq)
  then show ?thesis
    using assms by (simp add: encodeColor_def colorHex_def startsWith_def rgbBytes_hexForm)
qed

text \<open>
  C5: for every RGB triple of bytes \<open>(r, g, b)\<close> whose six-digit hexadecimal form is not a
  key of the color dictionary, \<open>encodeColor\<close> emits the four bytes \<open>[254, r, g, b]\<close>, and
  \<open>decodeColor\<close> reads them back as \<open>#RRGGBB\<close>, consuming 4 bytes; the three digit pairs
  of that string are exactly \<open>r\<close>, \<open>g\<close> and \<open>b\<close>. The input may spell the digits in either
  case.
\<close>

theorem rgb_color_roundtrip:
  assumes "hexForm r g b \<notin> fst ` set COLOR_DICT"
  shows "encodeColor (CHR ''#'' # hexForm r g b) = [254, r, g, b] \<and>
         decodeColor (encodeColor (CHR ''#'' # hexForm r g b)) 0 = Inr (CHR ''#'' # hexForm r g b, 4) \<and>
         parseInt16 (substring (hexForm r g b) 0 2) = Some (uint r) \<and>
         parseInt16 (substring (hexForm r g b) 2 4) = Some (uint g) \<and>
         parseInt16 (substring (hexForm r g b) 4 6) = Some (uint b) \<and>
         (\<forall>s. toUpperCase s = hexForm r g b \<longrightarrow> encodeColor (CHR ''#'' # s) = [254, r, g, b])"
proof -
  have none: "map_of COLOR_DICT (hexForm r g b) = None"
    using assms by (simp add: map_of_eq_None_iff)
  have enc: "encodeColor (CHR ''#'' # s) = [254, r, g, b]" if "toUpperCase s = hexForm r g b" for s
    using that none by (rule encodeColor_hash_rgb)
  have "decodeColor ([] @ [254, r, g, b] @ []) (length ([] :: buffer)) = Inr (CHR ''#'' # hexForm r g b, 4)"
    by (rule decodeColor_rgb)
  then show ?thesis
    using enc enc [OF toUpperCase_hexForm] parseInt16_hexForm [of r g b] by simp
qed

theorem rgb_color_roundtrip_witness:
  "hexForm 18 171 86 = ''12AB56'' \<and> ''12AB56'' \<notin> fst ` set COLOR_DICT \<and>
   encodeColor ''#12AB56'' = [254, 18, 171, 86] \<and>
   decodeColor (encodeColor ''#12AB56'') 0 = Inr (''#12AB56'', 4) \<and>
   encodeColor ''#12ab56'' = [254, 18, 171, 86]"
proof -
  have h: "hexForm 18 171 86 = ''12AB56''"
    by (simp add: hexForm_eq str_defs char_of_eq_iff)
  have n: "hexForm 18 171 86 \<notin> fst ` set COLOR_DICT"
    unfolding h by (simp add: COLOR_DICT_def)
  have u: "toUpperCase ''12ab56'' = hexForm 18 171 86"
    unfolding h by (simp add: str_defs char_of_eq_iff)
  from rgb_color_roundtrip [OF n] u h n show ?thesis by auto
qed
lemma black_index: "map_of COLOR_DICT ''000000'' = Some 1"
  by (simp add: COLOR_DICT_def)

text \<open>
  C9 as stated fails: \<open>ff0000\<close> is not empty, not \<open>none\<close>, has no \<open>#\<close>, is no \<open>rgb(...)\<close>
  form and is not a key of the dictionary (whose keys are in upper case), yet
  \<open>encodeColor\<close> looks up its upper-case form and emits red, index 4, not black.
\<close>

theorem unknown_color_counterexample:
  "''ff0000'' \<noteq> [] \<and> ''ff0000'' \<noteq> ''none'' \<and> \<not> startsWith ''ff0000'' ''#'' \<and>
   \<not> startsWith ''ff0000'' ''rgb'' \<and> rgbMatch ''ff0000'' = None \<and>
   ''ff0000'' \<notin> fst ` set COLOR_DICT \<and>
   encodeColor ''ff0000'' = [4] \<and> encodeColor ''ff0000'' \<noteq> [1]"
  by (simp add: encodeColor_def colorHex_def dictTruthy_def COLOR_DICT_def rgbMatchAt_def str_defs
      char_of_eq_iff)

text \<open>
  C9, amended: for every color string that is not empty or \<open>none\<close>, does not start with
  \<open>#\<close>, is not a string starting with \<open>rgb\<close> in which the \<open>rgb(r,g,b)\<close> expression matches,
  and whose upper-case form is not a key of the color dictionary, \<open>encodeColor\<close> emits
  the one byte 1, the dictionary index of black \<open>#000000\<close>.
\<close>

theorem unknown_color_defaults_to_black:
  assumes "color \<noteq> []" "color \<noteq> ''none''" "\<not> startsWith color ''#''"
    and "startsWith color ''rgb'' \<longrightarrow> rgbMatch color = None"
    and "toUpperCase color \<notin> fst ` set COLOR_DICT"
  shows "encodeColor color = [1] \<and> encodeColor color = encodeColor ''#000000''"
proof -
  have none: "map_of COLOR_DICT (toUpperCase color) = None"
    using assms(5) by (simp add: map_of_eq_None_iff)
  have "colorHex color = ''000000''"
  proof (cases "startsWith color ''rgb''")
    case True
    with assms(4) have "rgbMatch color = None" by simp
    with True assms(3) show ?thesis by (simp add: colorHex_def)
  next
    case False
    with assms(3) none show ?thesis by (simp add: colorHex_def dictTruthy_def)
  qed
  then have "encodeColor color = [1]"
    using assms(1,2) by (simp add: encodeColor_def black_index)
  moreover have "encodeColor ''#000000'' = [1]"
    by (simp add: encodeColor_def colorHex_def COLOR_DICT_def str_defs)
  ultimately show ?thesis by simp
qed

theorem unknown_color_defaults_to_black_witness:
  "encodeColor ''blue'' = [1] \<and> encodeColor ''rgb(1,2)'' = [1]"
proof -
  have u: "toUpperCase ''blue'' = ''BLUE''" "toUpperCase ''rgb(1,2)'' = ''RGB(1,2)''"
    by (simp_all add: str_defs char_of_eq_iff)
  have a: "''blue'' \<noteq> []" "''blue'' \<noteq> ''none''" "\<not> startsWith ''blue'' ''#''"
    "startsWith ''blue'' ''rgb'' \<longrightarrow> rgbMatch ''blue'' = None"
    "toUpperCase ''blue'' \<notin> fst ` set COLOR_DICT"
    unfolding u by (simp_all add: startsWith_def COLOR_DICT_def)
  have m: "rgbMatch ''rgb(1,2)'' = None"
    by (simp add: rgbMatchAt_def digitsThen_def skipSpaces_def str_defs)
  have b: "''rgb(1,2)'' \<noteq> []" "''rgb(1,2)'' \<noteq> ''none''" "\<not> startsWith ''rgb(1,2)'' ''#''"
    "startsWith ''rgb(1,2)'' ''rgb'' \<longrightarrow> rgbMatch ''rgb(1,2)'' = None"
    "toUpperCase ''rgb(1,2)'' \<notin> fst ` set COLOR_DICT"
    unfolding u m by (simp_all add: startsWith_def COLOR_DICT_def)
  from unknown_color_defaults_to_black [OF a] unknown_color_defaults_to_black [OF b]
  show ?thesis by simp
qed
section \<open>The path data round trip\<close>

text \<open>
  C4: compressing the path data \<open>M0,0 L10,10 Z\<close> and decoding the result does not give back
  the commands M, L, Z with the points (0,0) and (10,10). The tokens are \<open>M\<close>, \<open>0,0\<close>,
  \<open>L\<close>, \<open>10,10\<close>, \<open>Z\<close>: \<open>parseFloat\<close> stops at each comma, so one number is kept per
  pair, and the command codes 1, 3 and 19 are written as signed varints 2, 6 and 38, which
  the decoder reads as the commands \<open>m\<close> and \<open>h\<close> and as the number 19/15.
\<close>

theorem path_roundtrip_minimal_diverges:
  "compressPathData ''M0,0 L10,10 Z'' = [2, 0, 6, 172, 2, 38] \<and>
   decodePathData (compressPathData ''M0,0 L10,10 Z'') 0
     (int (length (compressPathData ''M0,0 L10,10 Z''))) = Inr ''m 0.00 h 10.00 1.27'' \<and>
   decompressSVG (compressSVG ''0 0 420 420''
     [\<lparr>pathD = ''M0,0 L10,10 Z'', pathFill = ''#FF0000'', pathStroke = ''none'',
       pathOpacity = Fin 1, pathStrokeWidth = Fin 0\<rparr>]) =
   svgContent ''0 0 420 420''
     [''<path d='' @ [dq] @ ''m 0.00 h 10.00 1.27'' @ [dq] @ '' fill='' @ [dq] @ ''#FF0000'' @ [dq] @ ''/>'']"
  by code_simp
section \<open>Path records\<close>
























text \<open>
  A negative opacity is written as one byte with its high bit set, which the decoder
  takes for the first byte of a longer varint: for opacity \<open>-0.5\<close> the byte is 206, and the
  decoder reads the opacity from it and from the byte of the length, and the length from
  the first byte of the path data.
\<close>

lemma negative_opacity_misread:
  "pathSegments \<lparr>pathD = ''M0,0 L10,10 Z'', pathFill = ''#FF0000'', pathStroke = ''none'',
                 pathOpacity = Fin (- 1 / 2), pathStrokeWidth = Fin 0\<rparr>
     [2, 0, 6, 172, 2, 38] = [4, 0, 1, 206, 6, 2, 0, 6, 172, 2, 38] \<and>
   decodePathHeader [4, 0, 1, 206, 6, 2, 0, 6, 172, 2, 38] 0 =
     Inr \<lparr>hFill = ''#FF0000'', hStroke = ''none'', hFlags = 1, hOpacity = 423 / 50,
          hStrokeWidth = 0, hPathDataLength = 2, hDataOffset = 6\<rparr>"
  by code_simp

lemma rounded_scaled_examples:
  "scaled (Fin (57 / 200)) 100 = Fin 28"
  "encodeScaled (Fin (57 / 200)) 100 = [28]"
  "encodeScaled (Fin (51 / 40)) 100 = [127]"
  "encodeScaled (Fin (1 / 2)) 100 = [50]"
  "encodeScaled NaN 100 = [0]"
  "encodeScaled PosInf 10 = [128, 0]"
  by code_simp+
section \<open>Truncated documents\<close>

lemma decodeVarInt_loop_stops_count:
  assumes "decodeVarInt_loop buffer offset result shift bytesRead = Inr (v, n)"
  shows "length (filter stopByte (drop (offset + bytesRead) buffer)) =
         Suc (length (filter stopByte (drop (offset + n) buffer)))"
  using assms
proof (induction buffer offset result shift bytesRead rule: decodeVarInt_loop.induct)
  case (1 buffer offset result shift bytesRead)
  have inside: "offset + bytesRead < length buffer"
    using "1.prems" by (subst (asm) decodeVarInt_loop.simps) (auto split: if_splits)
  then have d: "drop (offset + bytesRead) buffer =
                buffer ! (offset + bytesRead) # drop (offset + (bytesRead + 1)) buffer"
    by (simp add: Cons_nth_drop_Suc)
  show ?case
  proof (cases "buffer ! (offset + bytesRead) AND 0x80 \<noteq> 0")
    case True
    with "1.prems" inside have "decodeVarInt_loop buffer offset
        (result OR push_bit (shift mod 32) (ucast (buffer ! (offset + bytesRead) AND 0x7F)))
        (shift + 7) (bytesRead + 1) = Inr (v, n)"
      by (subst (asm) decodeVarInt_loop.simps) simp
    from "1.IH" [OF _ True this] inside True show ?thesis
      by (simp add: d stopByte_def)
  next
    case False
    with "1.prems" inside have "n = bytesRead + 1"
      by (subst (asm) decodeVarInt_loop.simps) simp
    with False show ?thesis by (simp add: d stopByte_def)
  qed
qed

lemma decodeVarInt_stops_count:
  "decodeVarInt buffer offset = Inr (v, n) \<Longrightarrow>
   length (filter stopByte (drop offset buffer)) =
   Suc (length (filter stopByte (drop (offset + n) buffer)))"
  using decodeVarInt_loop_stops_count [of buffer offset 0 0 0 v n]
  by (simp add: decodeVarInt_def)

lemma decodeSignedVarInt_stops_count:
  "decodeSignedVarInt buffer offset = Inr (v, n) \<Longrightarrow>
   length (filter stopByte (drop offset buffer)) =
   Suc (length (filter stopByte (drop (offset + n) buffer)))"
  by (auto simp add: decodeSignedVarInt_def split: sum.splits dest: decodeVarInt_stops_count)

lemma encodeVarInt_loop_chunk:
  "filter stopByte (butlast (encodeVarInt_loop num bytes)) = filter stopByte bytes"
proof (induction num bytes rule: encodeVarInt_loop.induct)
  case (1 num bytes)
  show ?case
  proof (cases "128 \<le> num")
    case True
    have "\<not> stopByte (ucast (((word_of_int num :: i32) AND 0x7F) OR 0x80))"
      using cont_byte [of "word_of_int num"] by (simp add: stopByte_def)
    with 1 True show ?thesis by (subst encodeVarInt_loop.simps) simp
  next
    case False
    then show ?thesis by (subst encodeVarInt_loop.simps) simp
  qed
qed

lemma encodeVarInt_chunk:
  "encodeVarInt n \<noteq> []" "filter stopByte (butlast (encodeVarInt n)) = []"
  "length (filter stopByte (encodeVarInt n)) \<le> 1"
proof -
  show ne: "encodeVarInt n \<noteq> []"
    by (simp add: encodeVarInt_def) (subst encodeVarInt_loop_Nil, simp)
  show bl: "filter stopByte (butlast (encodeVarInt n)) = []"
    by (simp add: encodeVarInt_def encodeVarInt_loop_chunk)
  have "encodeVarInt n = butlast (encodeVarInt n) @ [last (encodeVarInt n)]"
    using ne by simp
  then have "filter stopByte (encodeVarInt n) =
             filter stopByte (butlast (encodeVarInt n)) @ filter stopByte [last (encodeVarInt n)]"
    by (metis filter_append)
  then show "length (filter stopByte (encodeVarInt n)) \<le> 1" by (simp add: bl)
qed


lemma chunk_encodeVarInt: "chunk (encodeVarInt n)"
  using encodeVarInt_chunk [of n] by (simp add: chunk_def)

lemma chunk_encodeVarIntN: "chunk (encodeVarIntN v)"
  by (cases v) (simp_all add: encodeVarIntN_def chunk_encodeVarInt, simp add: chunk_def stopByte_def)

lemma chunk_encodeSignedVarIntN: "chunk (encodeSignedVarIntN v)"
  by (cases v) (simp_all add: encodeSignedVarIntN_def encodeSignedVarInt_def chunk_encodeVarInt)

lemma truncated_square:
  assumes "chunk A"
  shows "\<exists>e. decodeViewBox ([x, y, 1] @ butlast A) 2 = Inl e"
proof (cases "decodeVarInt ([x, y, 1] @ butlast A) 3")
  case (Inl e)
  then show ?thesis by (simp add: decodeViewBox_def)
next
  case (Inr r)
  obtain v n where "r = (v, n)" by (cases r)
  with Inr have "length (filter stopByte (drop 3 ([x, y, 1] @ butlast A))) \<ge> 1"
    using decodeVarInt_stops_count [of "[x, y, 1] @ butlast A" 3 v n] by simp
  with assms show ?thesis by (simp add: chunk_def)
qed

lemma truncated_rect:
  assumes "chunk A" "chunk B"
  shows "\<exists>e. decodeViewBox ([x, y, 2] @ A @ butlast B) 2 = Inl e"
proof -
  let ?buf = "[x, y, 2] @ A @ butlast B"
  have total: "length (filter stopByte (drop 3 ?buf)) \<le> 1"
    using assms by (simp add: chunk_def)
  show ?thesis
  proof (cases "decodeVarInt ?buf 3")
    case (Inl e)
    then show ?thesis by (simp add: decodeViewBox_def)
  next
    case (Inr r)
    obtain w n1 where r: "r = (w, n1)" by (cases r)
    have c1: "length (filter stopByte (drop 3 ?buf)) = Suc (length (filter stopByte (drop (3 + n1) ?buf)))"
      using Inr r by (intro decodeVarInt_stops_count) simp
    show ?thesis
    proof (cases "decodeVarInt ?buf (3 + n1)")
      case (Inl e)
      with Inr r show ?thesis by (simp add: decodeViewBox_def)
    next
      case Inr2: (Inr r2)
      obtain h n2 where "r2 = (h, n2)" by (cases r2)
      with Inr2 have "length (filter stopByte (drop (3 + n1) ?buf)) \<ge> 1"
        using decodeVarInt_stops_count [of ?buf "3 + n1" h n2] by simp
      with c1 total show ?thesis by simp
    qed
  qed
qed


lemma truncated_full:
  assumes "chunk X" "chunk Y" "chunk A" "chunk B"
  shows "\<exists>e. decodeViewBox ([x, y, 3] @ X @ Y @ A @ butlast B) 2 = Inl e"
proof (cases "decodeViewBox ([x, y, 3] @ X @ Y @ A @ butlast B) 2")
  case (Inl e)
  then show ?thesis by blast
next
  case (Inr r)
  let ?buf = "[x, y, 3] @ X @ Y @ A @ butlast B"
  have total: "length (filter stopByte (drop 3 ?buf)) \<le> 3"
    using assms by (simp add: chunk_def)
  from Inr obtain vx n1 vy n2 vw n3 vh n4 where
    r1: "decodeSignedVarInt ?buf 3 = Inr (vx, n1)" and
    r2: "decodeSignedVarInt ?buf (3 + n1) = Inr (vy, n2)" and
    r3: "decodeVarInt ?buf (3 + n1 + n2) = Inr (vw, n3)" and
    r4: "decodeVarInt ?buf (3 + n1 + n2 + n3) = Inr (vh, n4)"
    by (auto simp add: decodeViewBox_def split: sum.splits prod.splits)
  from decodeSignedVarInt_stops_count [OF r1] decodeSignedVarInt_stops_count [OF r2]
    decodeVarInt_stops_count [OF r3] decodeVarInt_stops_count [OF r4] total
  show ?thesis by simp
qed

lemma processViewBox_shape:
  "(\<exists>s. processViewBox viewBox = [0] @ s) \<or>
   (\<exists>A. chunk A \<and> processViewBox viewBox = [1] @ A) \<or>
   (\<exists>A B. chunk A \<and> chunk B \<and> processViewBox viewBox = [2] @ A @ B) \<or>
   (\<exists>X Y A B. chunk X \<and> chunk Y \<and> chunk A \<and> chunk B \<and>
       processViewBox viewBox = [3] @ X @ Y @ A @ B)"
proof (cases "startsWith viewBox ''0 0 '' \<and> length (splitOn CHR '' '' viewBox) = 4")
  case True
  let ?w = "parseInt (splitOn CHR '' '' viewBox ! 2)" and ?h = "parseInt (splitOn CHR '' '' viewBox ! 3)"
  have pv: "processViewBox viewBox =
      (if ?w \<noteq> None \<and> ?w = ?h then [1] @ encodeVarIntN ?w
       else [2] @ encodeVarIntN ?w @ encodeVarIntN ?h)"
    by (simp only: processViewBox_def Let_def if_P [OF True])
  show ?thesis
  proof (cases "?w \<noteq> None \<and> ?w = ?h")
    case eq: True
    then have "processViewBox viewBox = [1] @ encodeVarIntN ?w"
      unfolding pv by (rule if_P)
    with chunk_encodeVarIntN [of ?w] show ?thesis by blast
  next
    case False
    then have "processViewBox viewBox = [2] @ encodeVarIntN ?w @ encodeVarIntN ?h"
      unfolding pv by (rule if_not_P)
    with chunk_encodeVarIntN [of ?w] chunk_encodeVarIntN [of ?h] show ?thesis by blast
  qed
next
  case False
  let ?parts = "map parseInt (splitSpaces viewBox)"
  show ?thesis
  proof (cases "length ?parts = 4")
    case True
    with False have "processViewBox viewBox =
        [3] @ encodeSignedVarIntN (?parts ! 0) @ encodeSignedVarIntN (?parts ! 1) @
        encodeVarIntN (?parts ! 2) @ encodeVarIntN (?parts ! 3)"
      by (simp add: processViewBox_def Let_def)
    with chunk_encodeSignedVarIntN [of "?parts ! 0"] chunk_encodeSignedVarIntN [of "?parts ! 1"]
      chunk_encodeVarIntN [of "?parts ! 2"] chunk_encodeVarIntN [of "?parts ! 3"]
    show ?thesis by blast
  next
    case short: False
    with False have "processViewBox viewBox =
        [0] @ (encodeVarInt (int (length (utf8 viewBox))) @ utf8 viewBox)"
      by (simp add: processViewBox_def Let_def)
    then show ?thesis by blast
  qed
qed

lemma butlast_chunk: "chunk B \<Longrightarrow> butlast (xs @ B) = xs @ butlast B"
  by (simp add: chunk_def butlast_append)

lemma truncated_pathless_document:
  assumes "hd (processViewBox viewBox) \<noteq> 0"
  shows "\<exists>e. decompressSVG_try (butlast (compressSVG viewBox [])) = Inl e"
proof -
  have doc: "compressSVG viewBox [] = [3, 0] @ processViewBox viewBox"
    by (simp add: compressSVG_def)
  from processViewBox_shape [of viewBox] assms
  consider (sq) A where "chunk A" "processViewBox viewBox = [1] @ A"
    | (re) A B where "chunk A" "chunk B" "processViewBox viewBox = [2] @ A @ B"
    | (fu) X Y A B where "chunk X" "chunk Y" "chunk A" "chunk B"
        "processViewBox viewBox = [3] @ X @ Y @ A @ B"
    by auto
  then have "\<exists>e. decodeViewBox (butlast (compressSVG viewBox [])) 2 = Inl e \<and>
                 2 \<le> length (butlast (compressSVG viewBox []))"
  proof cases
    case sq
    have "butlast (compressSVG viewBox []) = [3, 0, 1] @ butlast A"
      using butlast_chunk [OF sq(1), of "[3, 0, 1]"] by (simp add: doc sq(2))
    with truncated_square [OF sq(1), of 3 0] show ?thesis by simp
  next
    case re
    have "butlast (compressSVG viewBox []) = [3, 0, 2] @ A @ butlast B"
      using butlast_chunk [OF re(2), of "[3, 0, 2] @ A"] by (simp add: doc re(3))
    with truncated_rect [OF re(1,2), of 3 0] show ?thesis by simp
  next
    case fu
    have "butlast (compressSVG viewBox []) = [3, 0, 3] @ X @ Y @ A @ butlast B"
      using butlast_chunk [OF fu(4), of "[3, 0, 3] @ X @ Y @ A"] by (simp add: doc fu(5))
    with truncated_full [OF fu(1,2,3,4), of 3 0] show ?thesis by simp
  qed
  then show ?thesis by (auto simp add: decompressSVG_try_def)
qed

lemma decompressSVG_try_Inl_iff:
  "(\<exists>e. decompressSVG_try buffer = Inl e) \<longleftrightarrow>
   length buffer < 2 \<or> (\<exists>e. decodeViewBox buffer 2 = Inl e)"
  by (auto simp add: decompressSVG_try_def split: sum.splits prod.splits)

lemma decodePaths_length:
  "length (decodePaths buffer remaining currentOffset paths) \<le> length paths + remaining"
proof (induction remaining arbitrary: currentOffset paths)
  case 0
  then show ?case by simp
next
  case (Suc remaining)
  show ?case
  proof (cases "decodePath buffer currentOffset")
    case (Inl e)
    then show ?thesis by simp
  next
    case (Inr r)
    obtain element nextOffset where "r = (element, nextOffset)" by (cases r)
    with Inr Suc [of nextOffset "paths @ [element]"] show ?thesis by simp
  qed
qed

lemma decodePaths_trace:
  "\<exists>ps offsets.
     decodePaths buffer remaining currentOffset paths = paths @ ps \<and>
     length offsets = length ps + 1 \<and> hd offsets = currentOffset \<and> length ps \<le> remaining \<and>
     (\<forall>i<length ps. offsets ! i < int (length buffer) \<and>
                      decodePath buffer (offsets ! i) = Inr (ps ! i, offsets ! (i + 1))) \<and>
     (length ps = remaining \<or> int (length buffer) \<le> last offsets \<or>
      (\<exists>e. decodePath buffer (last offsets) = Inl e))"
proof (induction remaining arbitrary: currentOffset paths)
  case 0
  show ?case by (rule exI [of _ "[]"], rule exI [of _ "[currentOffset]"]) simp
next
  case (Suc remaining)
  show ?case
  proof (cases "currentOffset < int (length buffer)")
    case False
    show ?thesis
      by (rule exI [of _ "[]"], rule exI [of _ "[currentOffset]"]) (use False in simp)
  next
    case True
    show ?thesis
    proof (cases "decodePath buffer currentOffset")
      case (Inl e)
      show ?thesis
        by (rule exI [of _ "[]"], rule exI [of _ "[currentOffset]"]) (use True Inl in simp)
    next
      case (Inr r)
      obtain element nextOffset where r: "r = (element, nextOffset)" by (cases r)
      from Suc [of nextOffset "paths @ [element]"] obtain ps offsets where
        t: "decodePaths buffer remaining nextOffset (paths @ [element]) = (paths @ [element]) @ ps"
          "length offsets = length ps + 1" "hd offsets = nextOffset" "length ps \<le> remaining"
          "\<forall>i<length ps. offsets ! i < int (length buffer) \<and>
                      decodePath buffer (offsets ! i) = Inr (ps ! i, offsets ! (i + 1))"
          "length ps = remaining \<or> int (length buffer) \<le> last offsets \<or>
             (\<exists>e. decodePath buffer (last offsets) = Inl e)"
        by blast
      have ne: "offsets \<noteq> []" using t(2) by auto
      have o0: "offsets ! 0 = nextOffset" using t(3) ne by (simp add: hd_conv_nth)
      have step: "\<forall>i<length (element # ps). (currentOffset # offsets) ! i < int (length buffer) \<and>
          decodePath buffer ((currentOffset # offsets) ! i) =
            Inr ((element # ps) ! i, (currentOffset # offsets) ! (i + 1))"
      proof (intro allI impI)
        fix i assume "i < length (element # ps)"
        then show "(currentOffset # offsets) ! i < int (length buffer) \<and>
          decodePath buffer ((currentOffset # offsets) ! i) =
            Inr ((element # ps) ! i, (currentOffset # offsets) ! (i + 1))"
          using True Inr r o0 t(5) by (cases i) simp_all
      qed
      show ?thesis
        apply (rule exI [of _ "element # ps"], rule exI [of _ "currentOffset # offsets"])
        using True Inr r t(1,2,4,6) ne step by simp
    qed
  qed
qed


lemma showNat_no_dq: "dq \<notin> set (showNat n)"
proof (induction n rule: showNat.induct)
  case (1 n)
  have c: "dq \<noteq> char_of (48 + k)" if "k < 10" for k :: nat
  proof
    assume "dq = char_of (48 + k)"
    then have "code dq = code (char_of (48 + k))" by simp
    then show False using that by (simp add: code_char_of dq_def code_def)
  qed
  show ?case
  proof (cases "n < 10")
    case True
    then show ?thesis using c [of n] by (subst showNat.simps) simp
  next
    case False
    then show ?thesis using 1 c [of "n mod 10"] by (subst showNat.simps) simp
  qed
qed

lemma toFixed_no_dq: "dq \<notin> set (toFixed f x)"
proof -
  have d: "dq \<notin> set (padStart n CHR ''0'' (showNat k))" for n k
    using showNat_no_dq [of k] by (auto simp add: padStart_def dq_def)
  show ?thesis
    using d by (auto simp add: toFixed_def Let_def dq_def dest: in_set_takeD in_set_dropD)
qed

lemma trim_subset: "set (trim s) \<subseteq> set s"
  by (auto simp add: trim_def dest!: set_dropWhileD)

lemma decodeNumber_no_dq:
  "dq \<notin> set (pathData st) \<Longrightarrow> dq \<notin> set (pathData (decodeNumber encodedNum st))"
  using toFixed_no_dq by (auto simp add: decodeNumber_def Let_def dq_def)

lemma decodeCommand_no_dq:
  assumes "map_of CMD_DICT_dec k = Some cmd" "dq \<notin> set (pathData st)"
  shows "dq \<notin> set (pathData (decodeCommand cmd st))"
proof -
  have "cmd \<in> snd ` set CMD_DICT_dec" using assms(1) by (force dest: map_of_SomeD)
  then have "dq \<notin> set cmd" by (auto simp add: CMD_DICT_dec_def dq_def)
  then show ?thesis using assms(2) by (simp add: decodeCommand_def dq_def)
qed

lemma decodePathData_loop_no_dq:
  "decodePathData_loop buffer endOffset currentOffset st = Inr st' \<Longrightarrow>
   dq \<notin> set (pathData st) \<Longrightarrow> dq \<notin> set (pathData st')"
proof (induction buffer endOffset currentOffset st rule: decodePathData_loop.induct)
  case (1 buffer endOffset currentOffset st)
  let ?c = "if currentOffset < length buffer \<and> 1 \<le> unat (buffer ! currentOffset) \<and>
               unat (buffer ! currentOffset) \<le> 19
            then map_of CMD_DICT_dec (unat (buffer ! currentOffset)) else None"
  show ?case
  proof (cases "currentOffset < endOffset")
    case False
    with "1.prems" show ?thesis by (subst (asm) decodePathData_loop.simps) simp
  next
    case True
    show ?thesis
    proof (cases ?c)
      case (Some cmd)
      then have m: "map_of CMD_DICT_dec (unat (buffer ! currentOffset)) = Some cmd"
        by (simp split: if_splits)
      have l: "decodePathData_loop buffer endOffset (currentOffset + 1) (decodeCommand cmd st) = Inr st'"
        using "1.prems"(1) True Some by (subst (asm) decodePathData_loop.simps) simp
      show ?thesis
        by (rule "1.IH"(2) [OF True Some l]) (rule decodeCommand_no_dq [OF m "1.prems"(2)])
    next
      case None
      show ?thesis
      proof (cases "decodeSignedVarInt buffer currentOffset")
        case (Inl e)
        with "1.prems"(1) True None show ?thesis
          by (subst (asm) decodePathData_loop.simps) simp
      next
        case (Inr r)
        obtain encodedNum bytesRead where r: "r = (encodedNum, bytesRead)" by (cases r)
        have l: "decodePathData_loop buffer endOffset (currentOffset + bytesRead)
                   (decodeNumber encodedNum st) = Inr st'"
          using "1.prems"(1) True None Inr r by (subst (asm) decodePathData_loop.simps) simp
        show ?thesis
          by (rule "1.IH"(1) [OF True None Inr r [symmetric] l])
             (rule decodeNumber_no_dq [OF "1.prems"(2)])
      qed
    qed
  qed
qed

lemma decodePathData_no_dq: "decodePathData buffer offset len = Inr t \<Longrightarrow> dq \<notin> set t"
proof -
  assume a: "decodePathData buffer offset len = Inr t"
  then obtain st where l: "decodePathData_loop buffer (nat (int offset + len)) offset
      \<lparr>pathData = [], posX = 0, posY = 0, currentCommand = [], isFirstCoordinate = True,
       coordCount = 0\<rparr> = Inr st" and t: "t = trim (pathData st)"
    by (auto simp add: decodePathData_def split: if_splits sum.splits)
  from decodePathData_loop_no_dq [OF l] have "dq \<notin> set (pathData st)" by simp
  with t trim_subset [of "pathData st"] show ?thesis by auto
qed

lemma decodePath_element:
  "decodePath buffer off = Inr (element, next) \<Longrightarrow>
   \<exists>h t. element = pathElement h t \<and> dq \<notin> set t"
  by (auto simp add: decodePath_def split: sum.splits dest: decodePathData_no_dq)


lemma join_Cons: "\<exists>tl. join sep (x # xs) = x @ tl"
  by (cases xs) simp_all

lemma marker_position:
  "\<forall>k\<in>set [0..<200].
     take 5 (drop k (''0 0 100 100'' @ [dq] @ ''>'' @ [nl] @
       ''  <path d='' @ [dq] @ ''M10 10L90 90M10 90L90 10'' @ [dq] @ '' stroke='' @ [dq] @
       ''#FF0000'' @ [dq] @ '' stroke-width='' @ [dq] @ ''5'' @ [dq] @ '' fill='' @ [dq] @
       ''none'' @ [dq] @ ''/>'' @ [nl] @
       ''  <circle cx='' @ [dq] @ ''50'' @ [dq] @ '' cy='' @ [dq] @ ''50'' @ [dq] @ '' r='' @ [dq] @
       ''40'' @ [dq] @ '' stroke='' @ [dq] @ ''#000000'' @ [dq] @ '' fill='' @ [dq] @ ''none'' @
       [dq] @ ''/>'' @ [nl] @ ''</svg>'')) = [dq] @ ''>'' @ [nl] @ ''  '' \<longrightarrow> k = 11"
  by code_simp


lemma append_eq_dropD: "xs @ ys = zs \<Longrightarrow> length xs \<le> length zs \<and> ys = drop (length xs) zs"
  by auto

lemma append_eq_takeD: "xs @ ys = zs \<Longrightarrow> take (length xs) zs = xs"
  by auto

lemma svgContent_not_fallback:
  assumes el: "paths \<noteq> [] \<Longrightarrow> \<exists>h t. hd paths = pathElement h t \<and> dq \<notin> set t"
  shows "svgContent viewBox paths \<noteq> fallbackSVG"
proof
  assume eq: "svgContent viewBox paths = fallbackSVG"
  define F0 where "F0 = ''0 0 100 100'' @ [dq] @ ''>'' @ [nl] @
     ''  <path d='' @ [dq] @ ''M10 10L90 90M10 90L90 10'' @ [dq] @ '' stroke='' @ [dq] @
     ''#FF0000'' @ [dq] @ '' stroke-width='' @ [dq] @ ''5'' @ [dq] @ '' fill='' @ [dq] @
     ''none'' @ [dq] @ ''/>'' @ [nl] @
     ''  <circle cx='' @ [dq] @ ''50'' @ [dq] @ '' cy='' @ [dq] @ ''50'' @ [dq] @ '' r='' @ [dq] @
     ''40'' @ [dq] @ '' stroke='' @ [dq] @ ''#000000'' @ [dq] @ '' fill='' @ [dq] @ ''none'' @
     [dq] @ ''/>'' @ [nl] @ ''</svg>''"
  define Q where "Q = [dq] @ ''>'' @ [nl] @ ''  ''"
  define R where "R = join ([nl] @ ''  '') paths @ [nl] @ ''</svg>''"
  define P0 where "P0 = ''<svg xmlns='' @ [dq] @ ''http://www.w3.org/2000/svg'' @ [dq] @ '' viewBox='' @ [dq]"
  have lF: "length F0 = 169" by (simp add: F0_def)
  have lQ: "length Q = 5" by (simp add: Q_def)
  have s1: "svgContent viewBox paths = P0 @ (viewBox @ Q @ R)"
    by (simp add: svgContent_def P0_def Q_def R_def)
  have s2: "fallbackSVG = P0 @ F0"
    by (simp add: fallbackSVG_def P0_def F0_def)
  have e1: "viewBox @ (Q @ R) = F0"
    using eq unfolding s1 s2 by simp
  from append_eq_dropD [OF e1]
  have k: "length viewBox \<le> length F0" and d: "Q @ R = drop (length viewBox) F0" by simp_all
  from append_eq_takeD [OF d] have "take 5 (drop (length viewBox) F0) = Q"
    by (simp add: lQ)
  moreover have "length viewBox \<in> set [0..<200]" using k lF by simp
  ultimately have k11: "length viewBox = 11"
    using marker_position unfolding F0_def Q_def by blast
  from append_eq_dropD [OF d] have r: "R = drop 16 F0"
    by (simp add: lQ k11)
  have r16: "drop 16 F0 = ''<path d='' @ [dq] @ drop 25 F0"
    by (simp add: F0_def)
  show False
  proof (cases paths)
    case Nil
    then have "R = [nl] @ ''</svg>''" by (simp add: R_def)
    with r r16 show False by (simp add: nl_def)
  next
    case (Cons p0 rest)
    with el obtain h t where p0: "p0 = pathElement h t" and t: "dq \<notin> set t" by auto
    obtain tl where j: "join ([nl] @ ''  '') paths = p0 @ tl"
      using join_Cons [of "[nl] @ ''  ''" p0 rest] Cons by auto
    have rj: "R = pathElement h t @ (tl @ [nl] @ ''</svg>'')"
      unfolding R_def j p0 by simp
    obtain Y where pe: "pathElement h t = (''<path d='' @ [dq]) @ (t @ dq # '' fill='' @ Y)"
      by (simp add: pathElement_def)
    define X where "X = Y @ tl @ [nl] @ ''</svg>''"
    have x: "R = (''<path d='' @ [dq]) @ (t @ dq # '' fill='' @ X)"
      unfolding rj pe X_def by simp
    have g: "t @ dq # '' fill='' @ X = drop 25 F0"
      using r x unfolding r16 by simp
    have dw: "dropWhile (\<lambda>c. c \<noteq> dq) (t @ dq # '' fill='' @ X) = dq # '' fill='' @ X"
      using t by (subst dropWhile_append3) auto
    have "take 3 (dropWhile (\<lambda>c. c \<noteq> dq) (drop 25 F0)) = [dq] @ '' s''"
      by (simp add: F0_def dq_def nl_def)
    with dw show False unfolding g [symmetric] by (simp add: dq_def)
  qed
qed

text \<open>
  C7 as stated fails on a document with a path. The document of the one-path SVG with
  viewBox \<open>0 0 420 420\<close>, path data \<open>M0,0 L10,10 Z\<close> and fill \<open>#FF0000\<close> has 15 bytes. Without
  its last byte \<open>decodePathData\<close> throws, the \<open>catch\<close> inside the loop ends the loop, and
  \<open>decompressSVG\<close> returns the markup of the viewBox with no path, not the fallback.
\<close>

theorem truncated_document_counterexample:
  "compressSVG ''0 0 420 420''
     [\<lparr>pathD = ''M0,0 L10,10 Z'', pathFill = ''#FF0000'', pathStroke = ''none'',
       pathOpacity = Fin 1, pathStrokeWidth = Fin 0\<rparr>] =
     [3, 1, 1, 164, 3, 4, 0, 0, 6, 2, 0, 6, 172, 2, 38] \<and>
   decodePath (butlast [3, 1, 1, 164, 3, 4, 0, 0, 6, 2, 0, 6, 172, 2, 38]) 5 =
     Inl (PathDataOverflow 9 6) \<and>
   decompressSVG_try (butlast [3, 1, 1, 164, 3, 4, 0, 0, 6, 2, 0, 6, 172, 2, 38]) =
     Inr (svgContent ''0 0 420 420'' []) \<and>
   decompressSVG (butlast [3, 1, 1, 164, 3, 4, 0, 0, 6, 2, 0, 6, 172, 2, 38]) \<noteq> fallbackSVG"
  by code_simp

text \<open>
  C7, amended: \<open>decompressSVG\<close> returns a string for every buffer (it is a total function:
  no exception leaves it and its loops end). Its outer \<open>catch\<close> is reached exactly when the
  buffer has fewer than 2 bytes or \<open>decodeViewBox\<close> throws, and the fallback markup is
  returned exactly then; this is what happens when the last byte is removed from a valid
  document that has no paths and stores its viewBox in an integer format (marker 1, 2 or
  3). When the buffer has 2 bytes and its viewBox decodes, the result is the markup of the
  decoded viewBox and of the paths decoded so far, and is not the fallback: the paths are
  those of the records decoded one after the other from the end of the viewBox, each at
  an offset inside the buffer, and the loop stops when \<open>pathCount\<close> paths are decoded,
  when the offset reaches the end of the buffer, or at the first record whose decoding
  throws, which the \<open>catch\<close> inside the loop turns into a \<open>break\<close>.
\<close>

theorem truncated_document_decoding:
  "((\<exists>e. decompressSVG_try buffer = Inl e) \<longleftrightarrow>
      length buffer < 2 \<or> (\<exists>e. decodeViewBox buffer 2 = Inl e)) \<and>
   (decompressSVG buffer = fallbackSVG \<longleftrightarrow> (\<exists>e. decompressSVG_try buffer = Inl e)) \<and>
   (\<forall>viewBox n. 2 \<le> length buffer \<and> decodeViewBox buffer 2 = Inr (viewBox, n) \<longrightarrow>
      (\<exists>paths offsets.
         length offsets = length paths + 1 \<and> hd offsets = 2 + n \<and>
         length paths \<le> unat (buffer ! 1) \<and>
         (\<forall>i<length paths.
            offsets ! i < int (length buffer) \<and>
            decodePath buffer (offsets ! i) = Inr (paths ! i, offsets ! (i + 1))) \<and>
         (length paths = unat (buffer ! 1) \<or> int (length buffer) \<le> last offsets \<or>
          (\<exists>e. decodePath buffer (last offsets) = Inl e)) \<and>
         decompressSVG_try buffer = Inr (svgContent viewBox paths) \<and>
         decompressSVG buffer = svgContent viewBox paths \<and>
         decompressSVG buffer \<noteq> fallbackSVG)) \<and>
   (\<forall>viewBox. hd (processViewBox viewBox) \<noteq> 0 \<longrightarrow>
      decompressSVG (butlast (compressSVG viewBox [])) = fallbackSVG)"
proof -
  have c3: "\<exists>paths offsets.
         length offsets = length paths + 1 \<and> hd offsets = 2 + n \<and>
         length paths \<le> unat (buffer ! 1) \<and>
         (\<forall>i<length paths.
            offsets ! i < int (length buffer) \<and>
            decodePath buffer (offsets ! i) = Inr (paths ! i, offsets ! (i + 1))) \<and>
         (length paths = unat (buffer ! 1) \<or> int (length buffer) \<le> last offsets \<or>
          (\<exists>e. decodePath buffer (last offsets) = Inl e)) \<and>
         decompressSVG_try buffer = Inr (svgContent viewBox paths) \<and>
         decompressSVG buffer = svgContent viewBox paths \<and>
         decompressSVG buffer \<noteq> fallbackSVG"
    if a: "2 \<le> length buffer \<and> decodeViewBox buffer 2 = Inr (viewBox, n)" for viewBox n
  proof -
    from decodePaths_trace [of buffer "unat (buffer ! 1)" "2 + n" "[]"]
    obtain paths offsets where
      t: "decodePaths buffer (unat (buffer ! 1)) (2 + n) [] = paths"
        "length offsets = length paths + 1" "hd offsets = 2 + n"
        "length paths \<le> unat (buffer ! 1)"
        "\<forall>i<length paths. offsets ! i < int (length buffer) \<and>
            decodePath buffer (offsets ! i) = Inr (paths ! i, offsets ! (i + 1))"
        "length paths = unat (buffer ! 1) \<or> int (length buffer) \<le> last offsets \<or>
          (\<exists>e. decodePath buffer (last offsets) = Inl e)"
      by auto
    have r: "decompressSVG_try buffer = Inr (svgContent viewBox paths)"
      using a t(1) by (simp add: decompressSVG_try_def)
    then have r': "decompressSVG buffer = svgContent viewBox paths"
      by (simp add: decompressSVG_def)
    have el: "\<exists>h t. hd paths = pathElement h t \<and> dq \<notin> set t" if ne: "paths \<noteq> []"
    proof -
      from ne t(5) have "decodePath buffer (offsets ! 0) = Inr (paths ! 0, offsets ! (0 + 1))"
        by auto
      from decodePath_element [OF this] show ?thesis using ne by (simp add: hd_conv_nth)
    qed
    have "decompressSVG buffer \<noteq> fallbackSVG"
      unfolding r' by (rule svgContent_not_fallback) (rule el)
    with t r r' show ?thesis by blast
  qed
  have c1: "(\<exists>e. decompressSVG_try buffer = Inl e) \<longleftrightarrow>
      length buffer < 2 \<or> (\<exists>e. decodeViewBox buffer 2 = Inl e)"
    by (rule decompressSVG_try_Inl_iff)
  have c2: "decompressSVG buffer = fallbackSVG \<longleftrightarrow> (\<exists>e. decompressSVG_try buffer = Inl e)"
  proof
    assume f: "decompressSVG buffer = fallbackSVG"
    show "\<exists>e. decompressSVG_try buffer = Inl e"
    proof (rule ccontr)
      assume n: "\<not> (\<exists>e. decompressSVG_try buffer = Inl e)"
      with c1 have l: "2 \<le> length buffer" and "\<not> (\<exists>e. decodeViewBox buffer 2 = Inl e)" by auto
      then obtain viewBox k where "decodeViewBox buffer 2 = Inr (viewBox, k)"
        by (cases "decodeViewBox buffer 2") auto
      with c3 [of viewBox k] l f show False by blast
    qed
  next
    assume "\<exists>e. decompressSVG_try buffer = Inl e"
    then show "decompressSVG buffer = fallbackSVG" by (auto simp add: decompressSVG_def)
  qed
  have c4: "decompressSVG (butlast (compressSVG viewBox [])) = fallbackSVG"
    if "hd (processViewBox viewBox) \<noteq> 0" for viewBox
    using truncated_pathless_document [OF that] by (auto simp add: decompressSVG_def)
  from c1 c2 c3 c4 show ?thesis by blast
qed


theorem truncated_document_decoding_witness:
  "decompressSVG (butlast (compressSVG ''0 0 420 420'' [])) = fallbackSVG \<and>
   decompressSVG (butlast [3, 1, 1, 164, 3, 4, 0, 0, 6, 2, 0, 6, 172, 2, 38]) =
     svgContent ''0 0 420 420'' [] \<and>
   decompressSVG (butlast [3, 1, 1, 164, 3, 4, 0, 0, 6, 2, 0, 6, 172, 2, 38]) \<noteq> fallbackSVG \<and>
   decompressSVG [3, 1, 1, 164, 3, 4, 0, 0, 6, 2, 0, 6, 172, 2, 38] =
     svgContent ''0 0 420 420''
       [''<path d='' @ [dq] @ ''m 0.00 h 10.00 1.27'' @ [dq] @ '' fill='' @ [dq] @ ''#FF0000'' @
        [dq] @ ''/>'']"
proof (intro conjI)
  have "hd (processViewBox ''0 0 420 420'') \<noteq> 0" by code_simp
  with truncated_document_decoding [of "[]"]
  show "decompressSVG (butlast (compressSVG ''0 0 420 420'' [])) = fallbackSVG" by blast
next
  let ?b = "butlast [3, 1, 1, 164, 3, 4, 0, 0, 6, 2, 0, 6, 172, 2, 38 :: u8]"
  have v: "2 \<le> length ?b \<and> decodeViewBox ?b 2 = Inr (''0 0 420 420'', 3)" by code_simp
  have e: "decodePath ?b 5 = Inl (PathDataOverflow 9 6)" by code_simp
  from truncated_document_decoding [of ?b, THEN conjunct2, THEN conjunct2, THEN conjunct1,
      rule_format, OF v]
  obtain paths offsets where
    t: "length offsets = length paths + 1" "hd offsets = 2 + 3"
      "\<forall>i<length paths. offsets ! i < int (length ?b) \<and>
          decodePath ?b (offsets ! i) = Inr (paths ! i, offsets ! (i + 1))"
      "decompressSVG ?b = svgContent ''0 0 420 420'' paths"
      "decompressSVG ?b \<noteq> fallbackSVG"
    by blast
  have o0: "offsets ! 0 = 5" using t(1,2) by (cases offsets) simp_all
  have "paths = []"
  proof (rule ccontr)
    assume "paths \<noteq> []"
    with t(3) have "decodePath ?b (offsets ! 0) = Inr (paths ! 0, offsets ! (0 + 1))" by auto
    with e o0 show False by simp
  qed
  with t(4,5) show "decompressSVG ?b = svgContent ''0 0 420 420'' []"
    and "decompressSVG ?b \<noteq> fallbackSVG" by simp_all
next
  let ?b = "[3, 1, 1, 164, 3, 4, 0, 0, 6, 2, 0, 6, 172, 2, 38 :: u8]"
  let ?el = "''<path d='' @ [dq] @ ''m 0.00 h 10.00 1.27'' @ [dq] @ '' fill='' @ [dq] @
             ''#FF0000'' @ [dq] @ ''/>''"
  have v: "2 \<le> length ?b \<and> decodeViewBox ?b 2 = Inr (''0 0 420 420'', 3)" by code_simp
  have e: "decodePath ?b 5 = Inr (?el, 15)" by code_simp
  from truncated_document_decoding [of ?b, THEN conjunct2, THEN conjunct2, THEN conjunct1,
      rule_format, OF v]
  obtain paths offsets where
    t: "length offsets = length paths + 1" "hd offsets = 2 + 3"
      "length paths \<le> unat (?b ! 1)"
      "\<forall>i<length paths. offsets ! i < int (length ?b) \<and>
          decodePath ?b (offsets ! i) = Inr (paths ! i, offsets ! (i + 1))"
      "length paths = unat (?b ! 1) \<or> int (length ?b) \<le> last offsets \<or>
         (\<exists>e. decodePath ?b (last offsets) = Inl e)"
      "decompressSVG ?b = svgContent ''0 0 420 420'' paths"
    by blast
  have o0: "offsets ! 0 = 5" using t(1,2) by (cases offsets) simp_all
  have l: "length paths = 1"
  proof (rule ccontr)
    assume "length paths \<noteq> 1"
    with t(3) have n: "paths = []" by (cases paths) auto
    with t(1) o0 have "offsets = [5]" by (cases offsets) simp_all
    with t(5) n e show False by simp
  qed
  with t(4) o0 e have "paths ! 0 = ?el" by auto
  with l have "paths = [?el]" by (cases paths) simp_all
  with t(6) show "decompressSVG ?b = svgContent ''0 0 420 420'' [?el]" by simp
qed
section \<open>Unknown markers\<close>

















end
